theory Spec2Isabelle
  imports Main "HOL-Library.Word"
begin

section \<open>Package io: data model\<close>

text \<open>
  The Go package \<^verbatim>\<open>io\<close> (file \<^verbatim>\<open>src/io/io.go\<close>) is embedded shallowly.

  \<^item> A Go \<^verbatim>\<open>error\<close> value is \<open>error option\<close>: \<open>None\<close> is \<^verbatim>\<open>nil\<close>, the package's
    sentinel variables are constructors, any other error is \<open>OtherError\<close>.
  \<^item> Go's \<^verbatim>\<open>int\<close> and \<^verbatim>\<open>int64\<close> are \<open>int\<close> with the two's complement wrap-around
    of 64 bits written out (\<open>wrap64\<close>) at every addition and subtraction of the source.
  \<^item> A byte slice is a \<open>byte list\<close>; slices are taken to have no spare capacity, so
    slicing beyond the length panics.
  \<^item> An interface value is the state of the object together with its method, passed as
    a function; a method that mutates its receiver returns the new state.
  \<^item> A panic is the outcome \<open>Panic\<close>; a loop that may run forever is a partial function
    in the option monad, where \<open>None\<close> means that the call does not return.
\<close>

type_synonym byte = "8 word"

datatype error =
    EOF
  | ErrShortWrite
  | errInvalidWrite
  | ErrShortBuffer
  | ErrUnexpectedEOF
  | ErrNoProgress
  | errWhence
  | errOffset
  | OtherError nat

datatype 'a outcome = Panic | Return 'a

datatype ('a, 'b) step = Break 'a | Continue 'b

definition wrap64 :: "int \<Rightarrow> int" where
  "wrap64 x = (x + 2 ^ 63) mod 2 ^ 64 - 2 ^ 63"

definition in64 :: "int \<Rightarrow> bool" where
  "in64 x = (- (2 ^ 63) \<le> x \<and> x < 2 ^ 63)"

text \<open>
  \<^verbatim>\<open>Read(p []byte) (n int, err error)\<close>: the reader's state and the slice it is given;
  the result is the pair \<open>(n, err)\<close>, the bytes the call left in \<open>p\<close> and the new state.
  \<open>store q p\<close> is the slice \<open>p\<close> after a call that left \<open>q\<close> in it: a call can neither
  lengthen nor shorten the caller's slice.

  \<^verbatim>\<open>Write(p []byte) (n int, err error)\<close>: the writer's state and the bytes; a writer
  does not modify the slice.
\<close>

type_synonym 's Reader = "'s \<Rightarrow> byte list \<Rightarrow> (int \<times> error option) \<times> byte list \<times> 's"

type_synonym 'w Writer = "'w \<Rightarrow> byte list \<Rightarrow> (int \<times> error option) \<times> 'w"

definition store :: "byte list \<Rightarrow> byte list \<Rightarrow> byte list" where
  "store q p = take (length p) q @ drop (length q) p"

type_synonym ('w, 's) copied = "((int \<times> error option) \<times> 'w \<times> 's) outcome option"

text \<open>\<^verbatim>\<open>WriteTo(w Writer) (n int64, err error)\<close> and \<^verbatim>\<open>ReadFrom(r Reader) (n int64, err error)\<close>.\<close>

type_synonym ('w, 's) WriterTo = "'s \<Rightarrow> 'w Writer \<Rightarrow> 'w \<Rightarrow> ('w, 's) copied"

type_synonym ('w, 's) ReaderFrom = "'w \<Rightarrow> 's Reader \<Rightarrow> 's \<Rightarrow> ('w, 's) copied"

section \<open>Copy, CopyBuffer, CopyN\<close>

text \<open>
  The tail of the loop body of \<^verbatim>\<open>copyBuffer\<close>:
  \<^verbatim>\<open>if er != nil { if er != EOF { err = er }; break }\<close>.
\<close>

definition readStatus ::
  "error option \<Rightarrow> byte list \<Rightarrow> int \<Rightarrow> 'w \<Rightarrow> 's \<Rightarrow>
    (((int \<times> error option) \<times> 'w \<times> 's) outcome, byte list \<times> int \<times> 'w \<times> 's) step" where
  "readStatus er buf written dst src =
    (case er of
      Some e \<Rightarrow> Break (Return ((written, if e \<noteq> EOF then Some e else None), dst, src))
    | None \<Rightarrow> Continue (buf, written, dst, src))"

text \<open>
  One pass through the body of the \<^verbatim>\<open>for\<close> loop of \<^verbatim>\<open>copyBuffer\<close>. The slice expression
  \<^verbatim>\<open>buf[0:nr]\<close> panics when \<open>nr\<close> exceeds the length of \<open>buf\<close>.
\<close>

definition copyBody ::
  "'w Writer \<Rightarrow> 's Reader \<Rightarrow> byte list \<Rightarrow> int \<Rightarrow> 'w \<Rightarrow> 's \<Rightarrow>
    (((int \<times> error option) \<times> 'w \<times> 's) outcome, byte list \<times> int \<times> 'w \<times> 's) step" where
  "copyBody wr rd buf written dst src =
    (case rd src buf of ((nr, er), q, src1) \<Rightarrow>
      let buf1 = store q buf in
      if 0 < nr then
        (if length buf1 < nat nr then Break Panic
         else
          (case wr dst (take (nat nr) buf1) of ((nw0, ew0), dst1) \<Rightarrow>
            let nw = (if nw0 < 0 \<or> nr < nw0 then 0 else nw0);
                ew = (if nw0 < 0 \<or> nr < nw0
                      then (if ew0 = None then Some errInvalidWrite else ew0) else ew0);
                written1 = wrap64 (written + nw)
            in if ew \<noteq> None then Break (Return ((written1, ew), dst1, src1))
               else if nr \<noteq> nw then Break (Return ((written1, Some ErrShortWrite), dst1, src1))
               else readStatus er buf1 written1 dst1 src1))
      else readStatus er buf1 written dst src1)"

partial_function (option) copyLoop ::
  "'w Writer \<Rightarrow> 's Reader \<Rightarrow> byte list \<Rightarrow> int \<Rightarrow> 'w \<Rightarrow> 's \<Rightarrow> ('w, 's) copied" where
  "copyLoop wr rd buf written dst src =
    (case copyBody wr rd buf written dst src of
      Break res \<Rightarrow> Some res
    | Continue (buf1, written1, dst1, src1) \<Rightarrow> copyLoop wr rd buf1 written1 dst1 src1)"

text \<open>
  The size of the staging buffer that \<^verbatim>\<open>copyBuffer\<close> allocates when it is given none.
  \<open>lim\<close> is the outcome of the type assertion \<^verbatim>\<open>src.(*LimitedReader)\<close>: \<open>Some N\<close> with
  the reader's field \<open>N\<close> when the source is a \<^verbatim>\<open>*LimitedReader\<close>.
\<close>

definition stagingSize :: "int option \<Rightarrow> nat" where
  "stagingSize lim =
    (let size = 32 * 1024 in
      case lim of
        Some N \<Rightarrow> if size > N then (if N < 1 then 1 else nat N) else nat size
      | None \<Rightarrow> nat size)"

text \<open>
  \<^verbatim>\<open>copyBuffer(dst, src, buf)\<close>. \<open>wt\<close> is the \<^verbatim>\<open>WriteTo\<close> method of the source when it has
  one, \<open>rf\<close> the \<^verbatim>\<open>ReadFrom\<close> method of the destination when it has one; \<open>buf\<close> is \<open>None\<close>
  for a nil slice.
\<close>

definition copyBuffer ::
  "('w, 's) WriterTo option \<Rightarrow> ('w, 's) ReaderFrom option \<Rightarrow> int option \<Rightarrow>
    'w Writer \<Rightarrow> 's Reader \<Rightarrow> 'w \<Rightarrow> 's \<Rightarrow> byte list option \<Rightarrow> ('w, 's) copied" where
  "copyBuffer wt rf lim wr rd dst src buf =
    (case wt of
      Some writeTo \<Rightarrow> writeTo src wr dst
    | None \<Rightarrow>
      (case rf of
        Some readFrom \<Rightarrow> readFrom dst rd src
      | None \<Rightarrow>
        (let buf1 = (case buf of None \<Rightarrow> replicate (stagingSize lim) 0 | Some b \<Rightarrow> b)
         in copyLoop wr rd buf1 0 dst src)))"

definition Copy ::
  "('w, 's) WriterTo option \<Rightarrow> ('w, 's) ReaderFrom option \<Rightarrow> int option \<Rightarrow>
    'w Writer \<Rightarrow> 's Reader \<Rightarrow> 'w \<Rightarrow> 's \<Rightarrow> ('w, 's) copied" where
  "Copy wt rf lim wr rd dst src = copyBuffer wt rf lim wr rd dst src None"

definition CopyBuffer ::
  "('w, 's) WriterTo option \<Rightarrow> ('w, 's) ReaderFrom option \<Rightarrow> int option \<Rightarrow>
    'w Writer \<Rightarrow> 's Reader \<Rightarrow> 'w \<Rightarrow> 's \<Rightarrow> byte list option \<Rightarrow> ('w, 's) copied" where
  "CopyBuffer wt rf lim wr rd dst src buf =
    (case buf of
      Some b \<Rightarrow>
        if length b = 0 then Some Panic else copyBuffer wt rf lim wr rd dst src buf
    | None \<Rightarrow> copyBuffer wt rf lim wr rd dst src buf)"

subsection \<open>LimitedReader\<close>

record 's LimitedReader =
  lrR :: 's
  lrN :: int

definition LimitReader :: "'s \<Rightarrow> int \<Rightarrow> 's LimitedReader" where
  "LimitReader r n = \<lparr>lrR = r, lrN = n\<rparr>"

text \<open>
  \<^verbatim>\<open>(*LimitedReader).Read\<close>, over the \<^verbatim>\<open>Read\<close> method \<open>rd\<close> of the field \<open>R\<close>. The underlying
  reader is given \<^verbatim>\<open>p[0:l.N]\<close> when \<open>p\<close> is longer than \<open>l.N\<close>; the rest of \<open>p\<close> is out of
  its reach.
\<close>

definition LimitedReader_Read :: "'s Reader \<Rightarrow> ('s LimitedReader) Reader" where
  "LimitedReader_Read rd l p =
    (if lrN l \<le> 0 then ((0, Some EOF), p, l)
     else
      (let p1 = (if int (length p) > lrN l then take (nat (lrN l)) p else p)
       in case rd (lrR l) p1 of ((n, err), q, r1) \<Rightarrow>
         ((n, err), store q p1 @ drop (length p1) p,
          \<lparr>lrR = r1, lrN = wrap64 (lrN l - n)\<rparr>)))"

text \<open>
  \<^verbatim>\<open>CopyN(dst, src, n)\<close>. The source handed to \<^verbatim>\<open>Copy\<close> is a \<^verbatim>\<open>*LimitedReader\<close>, which has
  no \<^verbatim>\<open>WriteTo\<close> method. The source's state after the call is the limited reader's \<open>R\<close>.
\<close>

definition CopyN ::
  "('w, 's LimitedReader) ReaderFrom option \<Rightarrow> 'w Writer \<Rightarrow> 's Reader \<Rightarrow> 'w \<Rightarrow> 's \<Rightarrow> int \<Rightarrow>
    ('w, 's) copied" where
  "CopyN rf wr rd dst src n =
    (case Copy None rf (Some n) wr (LimitedReader_Read rd) dst (LimitReader src n) of
      None \<Rightarrow> None
    | Some Panic \<Rightarrow> Some Panic
    | Some (Return ((written, err), dst1, l1)) \<Rightarrow>
        if written = n then Some (Return ((n, None), dst1, lrR l1))
        else if written < n \<and> err = None then Some (Return ((written, Some EOF), dst1, lrR l1))
        else Some (Return ((written, err), dst1, lrR l1)))"

section \<open>ReadAtLeast, ReadFull\<close>

text \<open>
  The loop of \<^verbatim>\<open>ReadAtLeast\<close>: \<^verbatim>\<open>for n < min && err == nil { nn, err = r.Read(buf[n:]); n += nn }\<close>.
  The slice expression \<^verbatim>\<open>buf[n:]\<close> panics unless \<open>0 \<le> n \<le> len(buf)\<close>.
  The result is the state at the exit of the loop.
\<close>

partial_function (option) readAtLeastLoop ::
  "'s Reader \<Rightarrow> int \<Rightarrow> byte list \<Rightarrow> int \<Rightarrow> error option \<Rightarrow> 's \<Rightarrow>
    (int \<times> error option \<times> byte list \<times> 's) outcome option" where
  "readAtLeastLoop rd min' buf n err src =
    (if n < min' \<and> err = None then
      (if n < 0 \<or> int (length buf) < n then Some Panic
       else
        (case rd src (drop (nat n) buf) of ((nn, err1), q, src1) \<Rightarrow>
          readAtLeastLoop rd min' (take (nat n) buf @ store q (drop (nat n) buf))
            (wrap64 (n + nn)) err1 src1))
     else Some (Return (n, err, buf, src)))"

definition ReadAtLeast ::
  "'s Reader \<Rightarrow> 's \<Rightarrow> byte list \<Rightarrow> int \<Rightarrow>
    ((int \<times> error option) \<times> byte list \<times> 's) outcome option" where
  "ReadAtLeast rd src buf min' =
    (if int (length buf) < min' then Some (Return ((0, Some ErrShortBuffer), buf, src))
     else
      (case readAtLeastLoop rd min' buf 0 None src of
        None \<Rightarrow> None
      | Some Panic \<Rightarrow> Some Panic
      | Some (Return (n, err, buf1, src1)) \<Rightarrow>
          Some (Return ((n,
            if n \<ge> min' then None
            else if n > 0 \<and> err = Some EOF then Some ErrUnexpectedEOF
            else err), buf1, src1))))"

definition ReadFull ::
  "'s Reader \<Rightarrow> 's \<Rightarrow> byte list \<Rightarrow> ((int \<times> error option) \<times> byte list \<times> 's) outcome option" where
  "ReadFull rd src buf = ReadAtLeast rd src buf (int (length buf))"

section \<open>SectionReader\<close>

text \<open>
  \<^verbatim>\<open>ReadAt(p []byte, off int64) (n int, err error)\<close>: the state of the store, the slice
  and the offset.
\<close>

type_synonym 'r ReaderAt = "'r \<Rightarrow> byte list \<Rightarrow> int \<Rightarrow> (int \<times> error option) \<times> byte list \<times> 'r"

definition SeekStart :: int where "SeekStart = 0"
definition SeekCurrent :: int where "SeekCurrent = 1"
definition SeekEnd :: int where "SeekEnd = 2"

definition maxint64 :: int where
  "maxint64 = 2 ^ 63 - 1"

record 'r SectionReader =
  srR :: 'r
  srBase :: int
  srOff :: int
  srLimit :: int

definition NewSectionReader :: "'r \<Rightarrow> int \<Rightarrow> int \<Rightarrow> 'r SectionReader" where
  "NewSectionReader r off n =
    (let remaining = (if off \<le> wrap64 (maxint64 - n) then wrap64 (n + off) else maxint64)
     in \<lparr>srR = r, srBase = off, srOff = off, srLimit = remaining\<rparr>)"

text \<open>\<^verbatim>\<open>(*SectionReader).Read\<close>. The slice expression \<^verbatim>\<open>p[0:max]\<close> panics when \<open>max' < 0\<close>.\<close>

definition SectionReader_Read ::
  "'r ReaderAt \<Rightarrow> 'r SectionReader \<Rightarrow> byte list \<Rightarrow>
    ((int \<times> error option) \<times> byte list \<times> 'r SectionReader) outcome" where
  "SectionReader_Read ra s p =
    (if srOff s \<ge> srLimit s then Return ((0, Some EOF), p, s)
     else
      (let max' = wrap64 (srLimit s - srOff s) in
        if int (length p) > max' \<and> max' < 0 then Panic
        else
          (let p1 = (if int (length p) > max' then take (nat max') p else p)
           in case ra (srR s) p1 (srOff s) of ((n, err), q, r1) \<Rightarrow>
             Return ((n, err), store q p1 @ drop (length p1) p,
               s\<lparr>srR := r1, srOff := wrap64 (srOff s + n)\<rparr>))))"

definition SectionReader_Seek ::
  "'r SectionReader \<Rightarrow> int \<Rightarrow> int \<Rightarrow> (int \<times> error option) \<times> 'r SectionReader" where
  "SectionReader_Seek s offset whence =
    (if whence \<noteq> SeekStart \<and> whence \<noteq> SeekCurrent \<and> whence \<noteq> SeekEnd
     then ((0, Some errWhence), s)
     else
      (let offset1 =
          (if whence = SeekStart then wrap64 (offset + srBase s)
           else if whence = SeekCurrent then wrap64 (offset + srOff s)
           else wrap64 (offset + srLimit s))
       in if offset1 < srBase s then ((0, Some errOffset), s)
          else ((wrap64 (offset1 - srBase s), None), s\<lparr>srOff := offset1\<rparr>)))"

text \<open>
  \<^verbatim>\<open>(*SectionReader).ReadAt\<close>. It changes no field of the section reader; the result
  carries the state of the underlying store.
\<close>

definition SectionReader_ReadAt ::
  "'r ReaderAt \<Rightarrow> 'r SectionReader \<Rightarrow> byte list \<Rightarrow> int \<Rightarrow>
    ((int \<times> error option) \<times> byte list \<times> 'r) outcome" where
  "SectionReader_ReadAt ra s p off =
    (if off < 0 \<or> off \<ge> wrap64 (srLimit s - srBase s) then Return ((0, Some EOF), p, srR s)
     else
      (let off1 = wrap64 (off + srBase s);
           max' = wrap64 (srLimit s - off1)
       in if int (length p) > max' then
            (if max' < 0 then Panic
             else
              (let p1 = take (nat max') p
               in case ra (srR s) p1 off1 of ((n, err), q, r1) \<Rightarrow>
                 Return ((n, if err = None then Some EOF else err),
                   store q p1 @ drop (length p1) p, r1)))
          else
            (case ra (srR s) p off1 of ((n, err), q, r1) \<Rightarrow>
              Return ((n, err), store q p, r1))))"

definition SectionReader_Size :: "'r SectionReader \<Rightarrow> int" where
  "SectionReader_Size s = wrap64 (srLimit s - srBase s)"

section \<open>TeeReader\<close>

record ('r, 'w) teeReader =
  teeR :: 'r
  teeW :: 'w

definition TeeReader :: "'r \<Rightarrow> 'w \<Rightarrow> ('r, 'w) teeReader" where
  "TeeReader r w = \<lparr>teeR = r, teeW = w\<rparr>"

text \<open>
  \<^verbatim>\<open>(*teeReader).Read\<close>. The slice expression \<^verbatim>\<open>p[:n]\<close> panics when \<open>n\<close> exceeds the
  length of \<open>p\<close>.
\<close>

definition teeReader_Read ::
  "'r Reader \<Rightarrow> 'w Writer \<Rightarrow> ('r, 'w) teeReader \<Rightarrow> byte list \<Rightarrow>
    ((int \<times> error option) \<times> byte list \<times> ('r, 'w) teeReader) outcome" where
  "teeReader_Read rd wr t p =
    (case rd (teeR t) p of ((n, err), q, r1) \<Rightarrow>
      let p1 = store q p in
      if n > 0 then
        (if length p1 < nat n then Panic
         else
          (case wr (teeW t) (take (nat n) p1) of ((nw, ew), w1) \<Rightarrow>
            if ew \<noteq> None then Return ((nw, ew), p1, \<lparr>teeR = r1, teeW = w1\<rparr>)
            else Return ((n, err), p1, \<lparr>teeR = r1, teeW = w1\<rparr>)))
      else Return ((n, err), p1, \<lparr>teeR = r1, teeW = teeW t\<rparr>))"

section \<open>Discard\<close>

text \<open>
  \<^verbatim>\<open>Discard\<close> is the one sink of the package with a \<^verbatim>\<open>ReadFrom\<close> method. Its state here is
  the scratch slice of 8192 bytes that \<^verbatim>\<open>blackHolePool\<close> hands out and takes back.
  \<^verbatim>\<open>(discard).Write\<close> reports every byte written and does nothing.
\<close>

definition discard_Write :: "(byte list) Writer" where
  "discard_Write bufp p = ((int (length p), None), bufp)"

text \<open>
  The loop of \<^verbatim>\<open>(discard).ReadFrom\<close>:
  \<^verbatim>\<open>for { readSize, err = r.Read(*bufp); n += int64(readSize); if err != nil { ... } }\<close>,
  which returns \<open>(n, nil)\<close> on \<open>EOF\<close> and \<open>(n, err)\<close> on any other error.
\<close>

partial_function (option) discard_ReadFrom_loop ::
  "'s Reader \<Rightarrow> byte list \<Rightarrow> int \<Rightarrow> 's \<Rightarrow> (byte list, 's) copied" where
  "discard_ReadFrom_loop rd bufp n src =
    (case rd src bufp of ((readSize, err), q, src1) \<Rightarrow>
      let bufp1 = store q bufp;
          n1 = wrap64 (n + readSize)
      in case err of
           Some e \<Rightarrow> Some (Return ((n1, if e = EOF then None else Some e), bufp1, src1))
         | None \<Rightarrow> discard_ReadFrom_loop rd bufp1 n1 src1)"

definition discard_ReadFrom :: "(byte list, 's) ReaderFrom" where
  "discard_ReadFrom bufp rd src = discard_ReadFrom_loop rd bufp 0 src"

section \<open>Sources and sinks of the specification\<close>

text \<open>
  \<open>contents rd src bs\<close>: the reader \<open>rd\<close> in state \<open>src\<close> is a source whose total content
  is \<open>bs\<close>. Whatever non-empty slice it is given, a read delivers a prefix of \<open>bs\<close> that
  fits the slice, either with no error, and what is left is the content of the new state,
  or with \<open>EOF\<close>, and then the prefix is all of \<open>bs\<close>. The predicate is inductive, so
  the source reports \<open>EOF\<close> after finitely many reads.
\<close>

inductive contents :: "'s Reader \<Rightarrow> 's \<Rightarrow> byte list \<Rightarrow> bool" for rd :: "'s Reader" where
  contentsI:
    "(\<And>p. 0 < length p \<Longrightarrow>
        \<exists>n err q src1. rd src p = ((n, err), q, src1) \<and> 0 \<le> n \<and> nat n \<le> length p \<and>
          nat n \<le> length bs \<and> take (nat n) (store q p) = take (nat n) bs \<and>
          (err = None \<longrightarrow> contents rd src1 (drop (nat n) bs)) \<and>
          (err \<noteq> None \<longrightarrow> err = Some EOF \<and> nat n = length bs))
     \<Longrightarrow> contents rd src bs"

text \<open>
  \<open>acceptsAll wr recv\<close>: the writer accepts every slice whole and without error, and
  \<open>recv\<close> reads off its state the bytes it has received so far.
\<close>

definition acceptsAll :: "'w Writer \<Rightarrow> ('w \<Rightarrow> byte list) \<Rightarrow> bool" where
  "acceptsAll wr recv =
    (\<forall>w p. fst (wr w p) = (int (length p), None) \<and> recv (snd (wr w p)) = recv w @ p)"

text \<open>
  \<open>withinRequest rd\<close>: the contract of \<^verbatim>\<open>Reader\<close>, \<open>0 \<le> n \<le> len(p)\<close>.
  \<open>nonNegative rd\<close>: only its first half, the counts being non-negative values of
  Go's \<^verbatim>\<open>int\<close>.
\<close>

definition withinRequest :: "'s Reader \<Rightarrow> bool" where
  "withinRequest rd = (\<forall>s p. 0 \<le> fst (fst (rd s p)) \<and> fst (fst (rd s p)) \<le> int (length p))"

definition nonNegative :: "'s Reader \<Rightarrow> bool" where
  "nonNegative rd = (\<forall>s p. 0 \<le> fst (fst (rd s p)) \<and> fst (fst (rd s p)) < 2 ^ 63)"

text \<open>The offset that the \<open>whence\<close> of a \<^verbatim>\<open>Seek\<close> on a section reader counts from.\<close>

definition seekOrigin :: "'r SectionReader \<Rightarrow> int \<Rightarrow> int" where
  "seekOrigin s whence =
    (if whence = SeekStart then srBase s
     else if whence = SeekCurrent then srOff s
     else srLimit s)"

text \<open>
  A sequence of \<^verbatim>\<open>Read\<close> calls on one reader, one call for each slice of the list: the
  byte counts the calls return, and the state after the last call.
\<close>

fun readCalls :: "'s Reader \<Rightarrow> 's \<Rightarrow> byte list list \<Rightarrow> int list \<times> 's" where
  "readCalls rd s [] = ([], s)"
| "readCalls rd s (p # ps) =
    (case rd s p of ((n, err), q, s1) \<Rightarrow>
      (case readCalls rd s1 ps of (ns, s2) \<Rightarrow> (n # ns, s2)))"

text \<open>
  \<open>accumulated rd min' buf src n buf1 src1\<close>: the loop of \<^verbatim>\<open>ReadAtLeast\<close>, started on
  \<open>buf\<close> and \<open>src\<close>, is at its head with \<open>n\<close> bytes accumulated, the buffer \<open>buf1\<close> and
  the source in state \<open>src1\<close>, every read so far having returned no error.
\<close>

inductive accumulated ::
  "'s Reader \<Rightarrow> int \<Rightarrow> byte list \<Rightarrow> 's \<Rightarrow> int \<Rightarrow> byte list \<Rightarrow> 's \<Rightarrow> bool"
  for rd :: "'s Reader" and min' :: int and buf :: "byte list" and src :: 's where
  accumulated_start: "accumulated rd min' buf src 0 buf src"
| accumulated_read:
    "accumulated rd min' buf src n buf1 src1 \<Longrightarrow> 0 \<le> n \<Longrightarrow> n < min' \<Longrightarrow>
     rd src1 (drop (nat n) buf1) = ((nn, None), q, src2) \<Longrightarrow>
     accumulated rd min' buf src (wrap64 (n + nn))
       (take (nat n) buf1 @ store q (drop (nat n) buf1)) src2"

subsection \<open>Example sources and sinks\<close>

text \<open>
  An in-memory source in the manner of \<^verbatim>\<open>strings.NewReader\<close>, which the tests of the
  repository read from: the state is what is left to read.
\<close>

definition bytesRead :: "(byte list) Reader" where
  "bytesRead s p =
    (if s = [] then ((0, Some EOF), [], s)
     else (let n = min (length p) (length s) in ((int n, None), take n s, drop n s)))"

text \<open>The same source, reporting \<open>EOF\<close> together with its last bytes.\<close>

definition eagerRead :: "(byte list) Reader" where
  "eagerRead s p =
    (let n = min (length p) (length s)
     in ((int n, if n = length s then Some EOF else None), take n s, drop n s))"

text \<open>An in-memory sink that appends what it is given, in the manner of \<^verbatim>\<open>bytes.Buffer\<close>.\<close>

definition bufWrite :: "(byte list) Writer" where
  "bufWrite w p = ((int (length p), None), w @ p)"

text \<open>A sink that keeps all but the last byte it is given and reports no error.\<close>

definition shortWrite :: "(byte list) Writer" where
  "shortWrite w p = ((int (length p) - 1, None), w @ butlast p)"

text \<open>A sink that appends what it is given and reports one byte more.\<close>

definition overWrite :: "(byte list) Writer" where
  "overWrite w p = ((int (length p) + 1, None), w @ p)"

text \<open>A sink that appends what it is given and reports an error all the same.\<close>

definition failWrite :: "(byte list) Writer" where
  "failWrite w p = ((int (length p), Some (OtherError 1)), w @ p)"

text \<open>
  A \<^verbatim>\<open>WriteTo\<close> method and a \<^verbatim>\<open>ReadFrom\<close> method that transfer nothing and report a
  failure.
\<close>

definition badWriteTo :: "('w, 's) WriterTo" where
  "badWriteTo src wr dst = Some (Return ((0, Some ErrShortWrite), dst, src))"

definition badReadFrom :: "('w, 's) ReaderFrom" where
  "badReadFrom dst rd src = Some (Return ((0, Some ErrShortWrite), dst, src))"

text \<open>A reader that reports ten bytes, whatever the slice can hold.\<close>

definition overRead :: "unit Reader" where
  "overRead s p = ((10, None), [], s)"

text \<open>
  An in-memory store with random access in the manner of \<^verbatim>\<open>bytes.Reader.ReadAt\<close>: a read
  that ends at the end of the store reports \<open>EOF\<close>.
\<close>

definition storeReadAt :: "(byte list) ReaderAt" where
  "storeReadAt s p off =
    (if off < 0 then ((0, Some (OtherError 0)), [], s)
     else if off \<ge> int (length s) then ((0, Some EOF), [], s)
     else
      (let n = min (length p) (length s - nat off)
       in ((int n, if n < length p then Some EOF else None), take n (drop (nat off) s), s)))"

section \<open>Basic facts\<close>

lemma wrap64_id: "in64 x \<Longrightarrow> wrap64 x = x"
  by (simp add: wrap64_def in64_def)

lemma in64_wrap64: "in64 (wrap64 x)"
proof -
  have "0 \<le> (x + 2 ^ 63) mod (2 ^ 64 :: int)" "(x + 2 ^ 63) mod (2 ^ 64 :: int) < 2 ^ 64"
    by simp_all
  then show ?thesis by (simp add: in64_def wrap64_def)
qed

lemma wrap64_over:
  assumes "2 ^ 63 \<le> x" "x < 3 * 2 ^ 63"
  shows "wrap64 x = x - 2 ^ 64"
proof -
  have "(x + 2 ^ 63) mod 2 ^ 64 = x + 2 ^ 63 - 2 ^ 64"
    by (rule int_mod_pos_eq [where q = 1]) (use assms in simp_all)
  then show ?thesis by (simp add: wrap64_def)
qed

lemma wrap64_diff_wrap64: "wrap64 (a - wrap64 b) = wrap64 (a - b)"
proof -
  have "(a - ((b + 2 ^ 63) mod 2 ^ 64 - 2 ^ 63) + 2 ^ 63) mod (2 ^ 64 :: int) =
      (a + 2 ^ 64 - (b + 2 ^ 63) mod 2 ^ 64) mod 2 ^ 64"
    by (simp add: algebra_simps)
  also have "\<dots> = (a + 2 ^ 64 - (b + 2 ^ 63)) mod 2 ^ 64"
    by (rule mod_diff_right_eq)
  also have "\<dots> = (a - b + 2 ^ 63) mod 2 ^ 64"
    by (simp add: algebra_simps)
  finally show ?thesis by (simp add: wrap64_def)
qed

lemma wrap64_wrap64_diff: "wrap64 (wrap64 a - b) = wrap64 (a - b)"
proof -
  have "((a + 2 ^ 63) mod 2 ^ 64 - 2 ^ 63 - b + 2 ^ 63) mod (2 ^ 64 :: int) =
      ((a + 2 ^ 63) mod 2 ^ 64 - b) mod 2 ^ 64"
    by (simp add: algebra_simps)
  also have "\<dots> = (a + 2 ^ 63 - b) mod 2 ^ 64"
    by (rule mod_diff_left_eq)
  also have "\<dots> = (a - b + 2 ^ 63) mod 2 ^ 64"
    by (simp add: algebra_simps)
  finally show ?thesis by (simp add: wrap64_def)
qed

lemma length_store [simp]: "length (store q p) = length p"
  by (simp add: store_def)

lemma stagingSize_pos: "0 < stagingSize lim"
  by (simp add: stagingSize_def split: option.split)

lemma acceptsAllD:
  assumes "acceptsAll wr recv"
  obtains w1 where "wr w p = ((int (length p), None), w1)" "recv w1 = recv w @ p"
  using assms unfolding acceptsAll_def by (metis prod.collapse)

lemma acceptsAll_bufWrite: "acceptsAll bufWrite (\<lambda>w. w)"
  by (simp add: acceptsAll_def bufWrite_def)

lemma contents_bytesRead: "contents bytesRead bs bs"
proof (induction bs rule: length_induct)
  case (1 bs)
  show ?case
  proof (rule contentsI)
    fix p :: "byte list"
    assume p: "0 < length p"
    show "\<exists>n err q src1. bytesRead bs p = ((n, err), q, src1) \<and> 0 \<le> n \<and> nat n \<le> length p \<and>
          nat n \<le> length bs \<and> take (nat n) (store q p) = take (nat n) bs \<and>
          (err = None \<longrightarrow> contents bytesRead src1 (drop (nat n) bs)) \<and>
          (err \<noteq> None \<longrightarrow> err = Some EOF \<and> nat n = length bs)"
    proof (cases "bs = []")
      case True
      then show ?thesis by (simp add: bytesRead_def)
    next
      case False
      let ?n = "min (length p) (length bs)"
      have pos: "0 < ?n" using p False by simp
      have "length (drop ?n bs) < length bs" using pos False by simp
      with 1 have "contents bytesRead (drop ?n bs) (drop ?n bs)" by blast
      moreover have "take ?n (store (take ?n bs) p) = take ?n bs"
        by (simp add: store_def)
      ultimately show ?thesis using False by (simp add: bytesRead_def Let_def)
    qed
  qed
qed

section \<open>The staging loop of Copy\<close>

text \<open>One pass of the loop in which the write takes all the bytes read.\<close>

lemma copyLoop_write:
  assumes "rd src buf = ((n, er), q, src1)" "0 < n" "nat n \<le> length buf"
    and "wr dst (take (nat n) (store q buf)) = ((n, None), dst1)"
  shows "copyLoop wr rd buf written dst src =
    (case er of
      None \<Rightarrow> copyLoop wr rd (store q buf) (wrap64 (written + n)) dst1 src1
    | Some e \<Rightarrow>
        Some (Return ((wrap64 (written + n), if e \<noteq> EOF then Some e else None), dst1, src1)))"
  using assms
  by (subst copyLoop.simps) (simp add: copyBody_def readStatus_def split: option.split)

text \<open>One pass of the loop in which the read delivers no byte.\<close>

lemma copyLoop_idle:
  assumes "rd src buf = ((n, er), q, src1)" "n \<le> 0"
  shows "copyLoop wr rd buf written dst src =
    (case er of
      None \<Rightarrow> copyLoop wr rd (store q buf) written dst src1
    | Some e \<Rightarrow> Some (Return ((written, if e \<noteq> EOF then Some e else None), dst, src1)))"
  using assms
  by (subst copyLoop.simps) (simp add: copyBody_def readStatus_def split: option.split)

text \<open>
  The loop drains a source of content \<open>bs\<close> into a sink that accepts everything, from any
  state of the loop: rule induction on \<open>contents\<close>.
\<close>

lemma copyLoop_contents:
  fixes wr :: "'w Writer" and rd :: "'s Reader"
  assumes c: "contents rd src bs" and w: "acceptsAll wr recv"
  shows "\<forall>buf written dst. 0 < length buf \<longrightarrow> 0 \<le> written \<longrightarrow>
      written + int (length bs) < 2 ^ 63 \<longrightarrow>
    (\<exists>dst1 src1. copyLoop wr rd buf written dst src =
        Some (Return ((written + int (length bs), None), dst1, src1)) \<and>
      recv dst1 = recv dst @ bs)"
  using c
proof (induction rule: contents.induct)
  case (contentsI src bs)
  show ?case
  proof (intro allI impI)
    fix buf :: "byte list" and written :: int and dst :: 'w
    assume b: "0 < length buf" and w0: "0 \<le> written"
      and wl: "written + int (length bs) < 2 ^ 63"
    from contentsI [OF b]
    obtain n err q src1 where rd: "rd src buf = ((n, err), q, src1)"
      and n0: "0 \<le> n" and nl: "nat n \<le> length buf" and nb: "nat n \<le> length bs"
      and tk: "take (nat n) (store q buf) = take (nat n) bs"
      and more: "err = None \<longrightarrow> (\<forall>x. 0 < length x \<longrightarrow>
           (\<forall>xa\<ge>0. xa + int (length (drop (nat n) bs)) < 2 ^ 63 \<longrightarrow>
               (\<forall>xb. \<exists>dst1 src1a. copyLoop wr rd x xa xb src1 =
                  Some (Return ((xa + int (length (drop (nat n) bs)), None), dst1, src1a)) \<and>
                  recv dst1 = recv xb @ drop (nat n) bs)))"
      and fin: "err \<noteq> None \<longrightarrow> err = Some EOF \<and> nat n = length bs"
      by (elim exE conjE) (rule that, assumption+, simp, assumption)
    have ln: "int (length (take (nat n) bs)) = n" using nb n0 by simp
    obtain dstw where wr: "wr dst (take (nat n) bs) = ((n, None), dstw)"
      and rc: "recv dstw = recv dst @ take (nat n) bs"
      using acceptsAllD [OF w, of dst "take (nat n) bs"] ln by metis
    have wi: "wrap64 (written + n) = written + n"
      using w0 wl n0 nb by (intro wrap64_id) (simp add: in64_def)
    have len: "written + n + int (length (drop (nat n) bs)) = written + int (length bs)"
      using nb n0 by simp
    show "\<exists>dst1 src1. copyLoop wr rd buf written dst src =
        Some (Return ((written + int (length bs), None), dst1, src1)) \<and> recv dst1 = recv dst @ bs"
    proof (cases "0 < n")
      case True
      have wr': "wr dst (take (nat n) (store q buf)) = ((n, None), dstw)"
        using wr tk by simp
      have step: "copyLoop wr rd buf written dst src =
        (case err of
          None \<Rightarrow> copyLoop wr rd (store q buf) (written + n) dstw src1
        | Some e \<Rightarrow>
            Some (Return ((written + n, if e \<noteq> EOF then Some e else None), dstw, src1)))"
        using copyLoop_write [of rd src buf n err q src1 wr dst dstw written, OF rd True nl wr']
        unfolding wi .
      show ?thesis
      proof (cases err)
        case None
        have l1: "0 < length (store q buf)" using b by simp
        have l2: "0 \<le> written + n" using w0 n0 by simp
        have l3: "written + n + int (length (drop (nat n) bs)) < 2 ^ 63" using len wl by simp
        from more None l1 l2 l3 obtain dst1 src2 where
          "copyLoop wr rd (store q buf) (written + n) dstw src1 =
             Some (Return ((written + n + int (length (drop (nat n) bs)), None), dst1, src2))"
          "recv dst1 = recv dstw @ drop (nat n) bs"
          by blast
        then show ?thesis using step None rc len by simp
      next
        case (Some e)
        with fin have "e = EOF" "nat n = length bs" by auto
        then show ?thesis using step Some rc n0 by auto
      qed
    next
      case False
      then have z: "n = 0" using n0 by simp
      have step: "copyLoop wr rd buf written dst src =
        (case err of
          None \<Rightarrow> copyLoop wr rd (store q buf) written dst src1
        | Some e \<Rightarrow> Some (Return ((written, if e \<noteq> EOF then Some e else None), dst, src1)))"
        using copyLoop_idle [of rd src buf n err q src1 wr written dst, OF rd] z by simp
      show ?thesis
      proof (cases err)
        case None
        have l1: "0 < length (store q buf)" using b by simp
        have l3: "written + int (length (drop (nat n) bs)) < 2 ^ 63" using z wl by simp
        from more None l1 w0 l3 obtain dst1 src2 where
          "copyLoop wr rd (store q buf) written dst src1 =
             Some (Return ((written + int (length (drop (nat n) bs)), None), dst1, src2))"
          "recv dst1 = recv dst @ drop (nat n) bs"
          by blast
        then show ?thesis using step None z by simp
      next
        case (Some e)
        with fin have "e = EOF" "nat n = length bs" by auto
        then show ?thesis using step Some z by auto
      qed
    qed
  qed
qed

lemma Copy_contents:
  fixes wr :: "'w Writer" and rd :: "'s Reader"
  assumes "contents rd src bs" and "acceptsAll wr recv" and "int (length bs) < 2 ^ 63"
  shows "\<exists>dst1 src1. Copy None None lim wr rd dst src =
      Some (Return ((int (length bs), None), dst1, src1)) \<and> recv dst1 = recv dst @ bs"
proof -
  have "0 < length (replicate (stagingSize lim) (0 :: byte))"
    using stagingSize_pos [of lim] by (simp only: length_replicate)
  with copyLoop_contents [OF assms(1,2)] assms(3)
  have "\<exists>dst1 src1. copyLoop wr rd (replicate (stagingSize lim) 0) 0 dst src =
      Some (Return ((0 + int (length bs), None), dst1, src1)) \<and> recv dst1 = recv dst @ bs"
    by (metis add.left_neutral order_refl)
  then show ?thesis
    by (simp only: Copy_def copyBuffer_def option.case Let_def add.left_neutral)
qed

text \<open>One pass of the loop in which the write reports a fault.\<close>

lemma copyLoop_invalid_write:
  assumes "rd src buf = ((nr, er), q, src1)" "0 < nr" "nat nr \<le> length buf"
    and "wr dst (take (nat nr) (store q buf)) = ((nw, ew), dst1)"
    and "nw < 0 \<or> nr < nw"
  shows "copyLoop wr rd buf written dst src =
    Some (Return ((wrap64 (written + 0),
      (if ew = None then Some errInvalidWrite else ew)), dst1, src1))"
  using assms
  by (subst copyLoop.simps) (auto simp add: copyBody_def readStatus_def)

lemma copyLoop_short_write:
  assumes "rd src buf = ((nr, er), q, src1)" "0 < nr" "nat nr \<le> length buf"
    and "wr dst (take (nat nr) (store q buf)) = ((nw, ew), dst1)"
    and "0 \<le> nw" "nw < nr"
  shows "copyLoop wr rd buf written dst src =
    Some (Return ((wrap64 (written + nw),
      (if ew = None then Some ErrShortWrite else ew)), dst1, src1))"
  using assms
  by (subst copyLoop.simps) (auto simp add: copyBody_def readStatus_def)

lemma copyLoop_failed_write:
  assumes "rd src buf = ((nr, er), q, src1)" "0 < nr" "nat nr \<le> length buf"
    and "wr dst (take (nat nr) (store q buf)) = ((nw, ew), dst1)"
    and "ew \<noteq> None"
  shows "copyLoop wr rd buf written dst src =
    Some (Return ((wrap64 (written + (if nw < 0 \<or> nr < nw then 0 else nw)), ew), dst1, src1))"
  using assms
  by (subst copyLoop.simps) (auto simp add: copyBody_def readStatus_def)

lemma stagingSize_None: "stagingSize None = 32768"
  by (simp add: stagingSize_def)

lemma bytesRead_123: "bytesRead [1, 2, 3] [0, 0, 0, 0] = ((3, None), [1, 2, 3], [])"
  by (simp add: bytesRead_def)

section \<open>The bulk methods of Copy\<close>

text \<open>
  \<^verbatim>\<open>(discard).ReadFrom\<close> drains a source of content \<open>bs\<close> and counts its bytes: rule
  induction on \<open>contents\<close>.
\<close>

lemma discard_ReadFrom_loop_contents:
  fixes rd :: "'s Reader"
  assumes c: "contents rd src bs"
  shows "\<forall>bufp n. 0 < length bufp \<longrightarrow> 0 \<le> n \<longrightarrow> n + int (length bs) < 2 ^ 63 \<longrightarrow>
    (\<exists>bufp1 src1. discard_ReadFrom_loop rd bufp n src =
        Some (Return ((n + int (length bs), None), bufp1, src1)) \<and> length bufp1 = length bufp)"
  using c
proof (induction rule: contents.induct)
  case (contentsI src bs)
  show ?case
  proof (intro allI impI)
    fix bufp :: "byte list" and n :: int
    assume b: "0 < length bufp" and n0: "0 \<le> n" and nl: "n + int (length bs) < 2 ^ 63"
    from contentsI [OF b]
    obtain m err q src1 where rd: "rd src bufp = ((m, err), q, src1)"
      and m0: "0 \<le> m" and ml: "nat m \<le> length bufp" and mb: "nat m \<le> length bs"
      and tk: "take (nat m) (store q bufp) = take (nat m) bs"
      and more0: "err = None \<longrightarrow> contents rd src1 (drop (nat m) bs) \<and>
        (\<forall>bufp n. 0 < length bufp \<longrightarrow> 0 \<le> n \<longrightarrow>
          n + int (length (drop (nat m) bs)) < 2 ^ 63 \<longrightarrow>
          (\<exists>bufp1 src1a. discard_ReadFrom_loop rd bufp n src1 =
              Some (Return ((n + int (length (drop (nat m) bs)), None), bufp1, src1a)) \<and>
            length bufp1 = length bufp))"
      and fin: "err \<noteq> None \<longrightarrow> err = Some EOF \<and> nat m = length bs"
      by (elim exE conjE) (rule that, assumption+)
    have mL: "m \<le> int (length bs)" using mb m0 by simp
    have wi: "wrap64 (n + m) = n + m"
      using n0 m0 mL nl by (intro wrap64_id) (simp add: in64_def)
    show "\<exists>bufp1 src1. discard_ReadFrom_loop rd bufp n src =
        Some (Return ((n + int (length bs), None), bufp1, src1)) \<and> length bufp1 = length bufp"
    proof (cases err)
      case None
      have step: "discard_ReadFrom_loop rd bufp n src =
          discard_ReadFrom_loop rd (store q bufp) (n + m) src1"
        using rd None wi by (subst discard_ReadFrom_loop.simps) simp
      have l1: "0 < length (store q bufp)" using b by simp
      have l2: "0 \<le> n + m" using n0 m0 by simp
      have len: "n + m + int (length (drop (nat m) bs)) = n + int (length bs)"
        using mb m0 by simp
      have l3: "n + m + int (length (drop (nat m) bs)) < 2 ^ 63" using len nl by simp
      from more0 [THEN mp, OF None, THEN conjunct2, rule_format, OF l1 l2 l3]
      obtain bufp1 src2 where
        "discard_ReadFrom_loop rd (store q bufp) (n + m) src1 =
          Some (Return ((n + m + int (length (drop (nat m) bs)), None), bufp1, src2))"
        "length bufp1 = length (store q bufp)"
        by (elim exE conjE) (rule that)
      then show ?thesis using step len by simp
    next
      case (Some e)
      with fin have e: "e = EOF" and all: "nat m = length bs" by auto
      have "int (nat m) = int (length bs)" using all by simp
      then have mm: "m = int (length bs)" using m0 by simp
      have "discard_ReadFrom_loop rd bufp n src =
          Some (Return ((n + m, None), store q bufp, src1))"
        using rd Some e wi by (subst discard_ReadFrom_loop.simps) simp
      then show ?thesis using mm by simp
    qed
  qed
qed

lemma Copy_Discard_contents:
  fixes rd :: "'s Reader"
  assumes "contents rd src bs" and "int (length bs) < 2 ^ 63" and "length bufp = 8192"
  shows "\<exists>bufp1 src1. Copy None (Some discard_ReadFrom) lim discard_Write rd bufp src =
      Some (Return ((int (length bs), None), bufp1, src1)) \<and> length bufp1 = 8192"
proof -
  have "0 < length bufp" using assms(3) by simp
  with discard_ReadFrom_loop_contents [OF assms(1), rule_format, of bufp 0] assms(2,3)
  show ?thesis
    by (simp add: Copy_def copyBuffer_def discard_ReadFrom_def)
qed

lemma Copy_WriteTo: "Copy (Some f) rf lim wr rd dst src = f src wr dst"
  by (simp add: Copy_def copyBuffer_def)

lemma Copy_ReadFrom: "Copy None (Some g) lim wr rd dst src = g dst rd src"
  by (simp add: Copy_def copyBuffer_def)

section \<open>LimitedReader and CopyN\<close>

lemma store_same_length: "length q = length p \<Longrightarrow> store q p = q"
  by (simp add: store_def)

text \<open>
  A limited reader with \<open>N\<close> bytes left over a source of content \<open>bs\<close> is a source of
  content \<open>take N bs\<close>.
\<close>

lemma contents_LimitedReader:
  fixes rd :: "'s Reader"
  assumes "contents rd src bs"
  shows "\<forall>N. 0 \<le> N \<longrightarrow> N < 2 ^ 63 \<longrightarrow>
    contents (LimitedReader_Read rd) \<lparr>lrR = src, lrN = N\<rparr> (take (nat N) bs)"
  using assms
proof (induction rule: contents.induct)
  case (contentsI src bs)
  show ?case
  proof (intro allI impI)
    fix N :: int
    assume N0: "0 \<le> N" and N1: "N < 2 ^ 63"
    show "contents (LimitedReader_Read rd) \<lparr>lrR = src, lrN = N\<rparr> (take (nat N) bs)"
    proof (rule contents.intros)
      fix p :: "byte list"
      assume p: "0 < length p"
      let ?l = "\<lparr>lrR = src, lrN = N\<rparr>"
      let ?bs = "take (nat N) bs"
      show "\<exists>n err q l1. LimitedReader_Read rd ?l p = ((n, err), q, l1) \<and> 0 \<le> n \<and>
          nat n \<le> length p \<and> nat n \<le> length ?bs \<and>
          take (nat n) (store q p) = take (nat n) ?bs \<and>
          (err = None \<longrightarrow> contents (LimitedReader_Read rd) l1 (drop (nat n) ?bs)) \<and>
          (err \<noteq> None \<longrightarrow> err = Some EOF \<and> nat n = length ?bs)"
      proof (cases "N = 0")
        case True
        then show ?thesis by (simp add: LimitedReader_Read_def)
      next
        case False
        with N0 have Np: "0 < N" by simp
        define p1 where "p1 = (if int (length p) > N then take (nat N) p else p)"
        have lp1: "0 < length p1" "length p1 \<le> length p" "int (length p1) \<le> N"
          using p Np by (auto simp: p1_def)
        from contentsI [OF lp1(1)]
        obtain n err q src1 where rd: "rd src p1 = ((n, err), q, src1)"
          and n0: "0 \<le> n" and nl: "nat n \<le> length p1" and nb: "nat n \<le> length bs"
          and tk: "take (nat n) (store q p1) = take (nat n) bs"
          and more: "err = None \<longrightarrow> (\<forall>N. 0 \<le> N \<longrightarrow> N < 2 ^ 63 \<longrightarrow>
            contents (LimitedReader_Read rd) \<lparr>lrR = src1, lrN = N\<rparr>
              (take (nat N) (drop (nat n) bs)))"
          and fin: "err \<noteq> None \<longrightarrow> err = Some EOF \<and> nat n = length bs"
          by (elim exE conjE) (rule that, assumption+, simp, assumption)
        have nN: "n \<le> N" using nl lp1(3) n0 by linarith
        have wi: "wrap64 (N - n) = N - n"
          using n0 nN N1 by (intro wrap64_id) (simp add: in64_def)
        have res: "LimitedReader_Read rd ?l p =
          ((n, err), store q p1 @ drop (length p1) p, \<lparr>lrR = src1, lrN = N - n\<rparr>)"
          using Np rd wi
          by (cases "N < int (length p)") (simp_all add: LimitedReader_Read_def p1_def)
        have len: "length (store q p1 @ drop (length p1) p) = length p"
          using lp1(2) by simp
        have t1: "take (nat n) (store (store q p1 @ drop (length p1) p) p) = take (nat n) ?bs"
          using nl tk nN n0 by (simp add: store_same_length [OF len] min_def)
        have t2: "nat n \<le> length ?bs" using nb nN n0 by simp
        have t3: "drop (nat n) ?bs = take (nat (N - n)) (drop (nat n) bs)"
          using n0 nN by (simp add: drop_take nat_diff_distrib)
        have t4: "err = None \<longrightarrow>
          contents (LimitedReader_Read rd) \<lparr>lrR = src1, lrN = N - n\<rparr> (drop (nat n) ?bs)"
          using more nN N1 n0 unfolding t3 by simp
        have t5: "err \<noteq> None \<longrightarrow> err = Some EOF \<and> nat n = length ?bs"
          using fin nN n0 by auto
        show ?thesis
          using res n0 nl lp1(2) t1 t2 t4 t5 by (intro exI conjI) (assumption | simp)+
      qed
    qed
  qed
qed

lemma CopyN_contents:
  fixes wr :: "'w Writer" and rd :: "'s Reader"
  assumes c: "contents rd src bs" and w: "acceptsAll wr recv"
    and n0: "0 \<le> n" and n1: "n < 2 ^ 63"
  shows "\<exists>dst1 src1. CopyN None wr rd dst src n =
      Some (Return ((min n (int (length bs)),
        if n \<le> int (length bs) then None else Some EOF), dst1, src1)) \<and>
      recv dst1 = recv dst @ take (nat n) bs"
proof -
  have c1: "contents (LimitedReader_Read rd) (LimitReader src n) (take (nat n) bs)"
    using contents_LimitedReader [OF c] n0 n1 by (simp add: LimitReader_def)
  have l: "int (length (take (nat n) bs)) < 2 ^ 63" using n0 n1 by simp
  from Copy_contents [OF c1 w l, of "Some n" dst]
  obtain dst1 l1 where
    cp: "Copy None None (Some n) wr (LimitedReader_Read rd) dst (LimitReader src n) =
      Some (Return ((int (length (take (nat n) bs)), None), dst1, l1))"
    and rc: "recv dst1 = recv dst @ take (nat n) bs"
    by blast
  have m: "int (length (take (nat n) bs)) = min n (int (length bs))" using n0 by simp
  show ?thesis
    using rc unfolding CopyN_def cp m by (auto simp: min_def)
qed

lemma CopyN_negative:
  assumes "n < 0"
  shows "CopyN None wr rd dst src n = Some (Return ((0, None), dst, src))"
proof -
  have "copyLoop wr (LimitedReader_Read rd) [0] 0 dst (LimitReader src n) =
      Some (Return ((0, None), dst, LimitReader src n))"
    using assms
    by (subst copyLoop_idle [of _ _ _ 0 "Some EOF" "[0]" "LimitReader src n"])
       (simp_all add: LimitedReader_Read_def LimitReader_def)
  then have "Copy None None (Some n) wr (LimitedReader_Read rd) dst (LimitReader src n) =
      Some (Return ((0, None), dst, LimitReader src n))"
    using assms by (simp add: Copy_def copyBuffer_def stagingSize_def)
  then show ?thesis using assms by (simp add: CopyN_def LimitReader_def)
qed

lemma Copy_limited_failWrite:
  "Copy None None (Some 3) failWrite (LimitedReader_Read bytesRead) []
      (LimitReader [1, 2, 3] 3) =
    Some (Return ((3, Some (OtherError 1)), [1, 2, 3], \<lparr>lrR = [], lrN = 0\<rparr>))"
  apply (simp add: Copy_def copyBuffer_def stagingSize_def)
  apply (subst copyLoop.simps)
  apply (simp add: copyBody_def LimitedReader_Read_def LimitReader_def bytesRead_def
      failWrite_def store_def wrap64_def)
  done

text \<open>
  Through the staging loop, for a count that is not negative, \<^verbatim>\<open>CopyN\<close> transfers \<open>n\<close>
  bytes and returns \<open>(n, nil)\<close>, or all \<open>L\<close> bytes of a shorter source and \<open>(L, EOF)\<close>;
  for a negative count it reads nothing and returns \<open>(0, nil)\<close>.
\<close>

lemma CopyN_count_or_EOF:
  fixes wr :: "'w Writer" and rd :: "'s Reader"
  assumes "contents rd src bs" and "acceptsAll wr recv" and "n < 2 ^ 63"
  shows
    "(0 \<le> n \<and> n \<le> int (length bs) \<longrightarrow>
        (\<exists>dst1 src1. CopyN None wr rd dst src n = Some (Return ((n, None), dst1, src1)) \<and>
          recv dst1 = recv dst @ take (nat n) bs)) \<and>
     (int (length bs) < n \<longrightarrow>
        (\<exists>dst1 src1. CopyN None wr rd dst src n =
            Some (Return ((int (length bs), Some EOF), dst1, src1)) \<and>
          recv dst1 = recv dst @ bs)) \<and>
     (n < 0 \<longrightarrow> CopyN None wr rd dst src n = Some (Return ((0, None), dst, src)))"
proof (intro conjI impI)
  assume "0 \<le> n \<and> n \<le> int (length bs)"
  then show "\<exists>dst1 src1. CopyN None wr rd dst src n = Some (Return ((n, None), dst1, src1)) \<and>
      recv dst1 = recv dst @ take (nat n) bs"
    using CopyN_contents [OF assms(1,2) _ assms(3), of dst] by (simp add: min_def)
next
  assume "int (length bs) < n"
  then show "\<exists>dst1 src1. CopyN None wr rd dst src n =
      Some (Return ((int (length bs), Some EOF), dst1, src1)) \<and> recv dst1 = recv dst @ bs"
    using CopyN_contents [OF assms(1,2) _ assms(3), of dst] by (simp add: min_def)
next
  assume "n < 0"
  then show "CopyN None wr rd dst src n = Some (Return ((0, None), dst, src))"
    by (rule CopyN_negative)
qed

section \<open>LimitedReader.Read across calls\<close>

lemma LimitedReader_Read_exhausted:
  "lrN l \<le> 0 \<Longrightarrow> LimitedReader_Read rd l p = ((0, Some EOF), p, l)"
  by (simp add: LimitedReader_Read_def)

lemma LimitedReader_Read_delegates:
  assumes "0 < lrN l"
    and "rd (lrR l) (take (nat (min (lrN l) (int (length p)))) p) = ((n, err), q, r1)"
  shows "LimitedReader_Read rd l p =
    ((n, err),
     store q (take (nat (min (lrN l) (int (length p)))) p) @
       drop (nat (min (lrN l) (int (length p)))) p,
     \<lparr>lrR = r1, lrN = wrap64 (lrN l - n)\<rparr>)"
proof (cases "lrN l < int (length p)")
  case True
  then have "min (lrN l) (int (length p)) = lrN l" "min (length p) (nat (lrN l)) = nat (lrN l)"
    by simp_all
  then show ?thesis using assms True by (simp add: LimitedReader_Read_def)
next
  case False
  then have "min (lrN l) (int (length p)) = int (length p)" by simp
  then show ?thesis using assms False by (simp add: LimitedReader_Read_def)
qed

lemma LimitedReader_Read_in64:
  "in64 (lrN l) \<Longrightarrow> in64 (lrN (snd (snd (LimitedReader_Read rd l p))))"
  by (simp add: LimitedReader_Read_def Let_def in64_wrap64 split: prod.split)

lemma LimitedReader_Read_mono:
  assumes "nonNegative rd" "in64 (lrN l)"
  shows "lrN (snd (snd (LimitedReader_Read rd l p))) =
      (if lrN l \<le> 0 then lrN l else lrN l - fst (fst (LimitedReader_Read rd l p))) \<and>
    lrN (snd (snd (LimitedReader_Read rd l p))) \<le> lrN l"
proof (cases "lrN l \<le> 0")
  case True
  then show ?thesis by (simp add: LimitedReader_Read_exhausted)
next
  case False
  then have pos: "0 < lrN l" by simp
  let ?p1 = "take (nat (min (lrN l) (int (length p)))) p"
  obtain n err q r1 where rd: "rd (lrR l) ?p1 = ((n, err), q, r1)"
    by (metis prod.collapse)
  have n: "0 \<le> n" "n < 2 ^ 63"
    using assms(1) rd unfolding nonNegative_def by (metis fst_conv)+
  have "wrap64 (lrN l - n) = lrN l - n"
    using n pos assms(2) by (intro wrap64_id) (simp add: in64_def)
  then show ?thesis
    using n LimitedReader_Read_delegates [of l rd p n err q r1] pos rd by simp
qed

lemma readCalls_LimitedReader_mono:
  assumes "nonNegative rd"
  shows "in64 (lrN l) \<Longrightarrow> lrN (snd (readCalls (LimitedReader_Read rd) l ps)) \<le> lrN l"
proof (induction ps arbitrary: l)
  case Nil
  then show ?case by simp
next
  case (Cons p ps)
  let ?l1 = "snd (snd (LimitedReader_Read rd l p))"
  have "lrN (snd (readCalls (LimitedReader_Read rd) ?l1 ps)) \<le> lrN ?l1"
    by (rule Cons.IH) (rule LimitedReader_Read_in64 [OF Cons.prems])
  also have "lrN ?l1 \<le> lrN l"
    using LimitedReader_Read_mono [OF assms Cons.prems, of p] by (rule conjunct2)
  finally show ?case by (simp add: case_prod_beta)
qed

lemma LimitedReader_Read_within:
  assumes "withinRequest rd" "in64 (lrN l)" "0 < lrN l"
  shows "0 \<le> fst (fst (LimitedReader_Read rd l p)) \<and>
    fst (fst (LimitedReader_Read rd l p)) \<le> lrN l \<and>
    lrN (snd (snd (LimitedReader_Read rd l p))) = lrN l - fst (fst (LimitedReader_Read rd l p))"
proof -
  let ?p1 = "take (nat (min (lrN l) (int (length p)))) p"
  obtain n err q r1 where rd: "rd (lrR l) ?p1 = ((n, err), q, r1)"
    by (metis prod.collapse)
  have "0 \<le> fst (fst (rd (lrR l) ?p1)) \<and> fst (fst (rd (lrR l) ?p1)) \<le> int (length ?p1)"
    using assms(1) unfolding withinRequest_def by blast
  then have n: "0 \<le> n" "n \<le> lrN l" using rd assms(3) by auto
  have "wrap64 (lrN l - n) = lrN l - n"
    using n assms(2) by (intro wrap64_id) (simp add: in64_def)
  then show ?thesis
    using n LimitedReader_Read_delegates [of l rd p n err q r1] assms(3) rd by simp
qed

text \<open>The counts of any sequence of reads add up to the limit at most: induction on the calls.\<close>

lemma readCalls_LimitedReader_total:
  assumes "withinRequest rd"
  shows "in64 (lrN l) \<Longrightarrow>
    sum_list (fst (readCalls (LimitedReader_Read rd) l ps)) \<le> max 0 (lrN l)"
proof (induction ps arbitrary: l)
  case Nil
  then show ?case by simp
next
  case (Cons p ps)
  let ?res = "LimitedReader_Read rd l p"
  let ?l1 = "snd (snd ?res)"
  have IH: "sum_list (fst (readCalls (LimitedReader_Read rd) ?l1 ps)) \<le> max 0 (lrN ?l1)"
    by (rule Cons.IH) (rule LimitedReader_Read_in64 [OF Cons.prems])
  have split: "sum_list (fst (readCalls (LimitedReader_Read rd) l (p # ps))) =
      fst (fst ?res) + sum_list (fst (readCalls (LimitedReader_Read rd) ?l1 ps))"
    by (simp add: case_prod_beta)
  show ?case
  proof (cases "lrN l \<le> 0")
    case True
    then show ?thesis using IH unfolding split by (simp add: LimitedReader_Read_exhausted)
  next
    case False
    then have pos: "0 < lrN l" by simp
    from LimitedReader_Read_within [OF assms Cons.prems pos, of p] IH
    show ?thesis unfolding split by linarith
  qed
qed

lemma withinRequest_bytesRead: "withinRequest bytesRead"
  by (simp add: withinRequest_def bytesRead_def Let_def)

lemma nonNegative_overRead: "nonNegative overRead"
  by (simp add: nonNegative_def overRead_def)

section \<open>ReadAtLeast\<close>

text \<open>
  At the exit of the loop its condition is false: induction over the unfoldings of the
  partial function.
\<close>

lemma readAtLeastLoop_exit_aux:
  assumes "readAtLeastLoop rd min' buf n err src = Some y"
  shows "case y of Panic \<Rightarrow> True | Return (m, e, b, s) \<Rightarrow> \<not> (m < min' \<and> e = None)"
proof (rule readAtLeastLoop.raw_induct
    [where P = "\<lambda>rd min' buf n err src y.
        case y of Panic \<Rightarrow> True | Return (m, e, b, s) \<Rightarrow> \<not> (m < min' \<and> e = None)",
      OF _ assms], goal_cases)
  case (1 loop rd min' buf n err src y)
  show ?case
  proof (cases "n < min' \<and> err = None")
    case True
    note run = True
    show ?thesis
    proof (cases "n < 0 \<or> int (length buf) < n")
      case True
      with 1(2) run show ?thesis by auto
    next
      case False
      obtain nn err1 q src1 where r: "rd src (drop (nat n) buf) = ((nn, err1), q, src1)"
        by (metis prod.collapse)
      have "loop rd min' (take (nat n) buf @ store q (drop (nat n) buf))
          (wrap64 (n + nn)) err1 src1 = Some y"
        using 1(2) run False r by simp
      then show ?thesis by (rule 1(1))
    qed
  next
    case False
    with 1(2) show ?thesis by auto
  qed
qed

lemma readAtLeastLoop_exit:
  assumes "readAtLeastLoop rd min' buf n err src = Some (Return (m, e, b, s))"
  shows "\<not> (m < min' \<and> e = None)"
  using readAtLeastLoop_exit_aux [OF assms] by simp

lemma ReadAtLeast_iff:
  assumes "ReadAtLeast rd src buf min' = Some (Return ((n, e), b, s))"
  shows "min' \<le> n \<longleftrightarrow> e = None"
proof (cases "int (length buf) < min'")
  case True
  with assms show ?thesis by (auto simp: ReadAtLeast_def)
next
  case False
  with assms obtain m e0 where
    l: "readAtLeastLoop rd min' buf 0 None src = Some (Return (m, e0, b, s))"
    and n: "n = m"
    and e: "e = (if m \<ge> min' then None
                else if m > 0 \<and> e0 = Some EOF then Some ErrUnexpectedEOF else e0)"
    by (auto simp: ReadAtLeast_def split: option.splits outcome.splits)
  from readAtLeastLoop_exit [OF l] show ?thesis unfolding n e by auto
qed

lemma accumulated_length:
  "accumulated rd min' buf src n buf1 src1 \<Longrightarrow> min' \<le> int (length buf) \<Longrightarrow>
    length buf1 = length buf"
  by (induction rule: accumulated.induct) auto

lemma accumulated_loop:
  "accumulated rd min' buf src n buf1 src1 \<Longrightarrow> min' \<le> int (length buf) \<Longrightarrow>
    readAtLeastLoop rd min' buf 0 None src = readAtLeastLoop rd min' buf1 n None src1"
proof (induction rule: accumulated.induct)
  case accumulated_start
  show ?case by simp
next
  case (accumulated_read n buf1 src1 nn q src2)
  have len: "length buf1 = length buf"
    using accumulated_read.hyps(1) accumulated_read.prems by (rule accumulated_length)
  have "readAtLeastLoop rd min' buf1 n None src1 =
      readAtLeastLoop rd min' (take (nat n) buf1 @ store q (drop (nat n) buf1))
        (wrap64 (n + nn)) None src2"
    using accumulated_read.hyps(2-4) accumulated_read.prems len
    by (subst readAtLeastLoop.simps) simp
  then show ?case using accumulated_read.IH accumulated_read.prems by simp
qed

lemma ReadAtLeast_failure:
  assumes acc: "accumulated rd min' buf src n buf1 src1"
    and len: "min' \<le> int (length buf)" and n: "0 \<le> n" "n < min'"
    and rd: "rd src1 (drop (nat n) buf1) = ((nn, Some e), q, src2)"
  shows "ReadAtLeast rd src buf min' =
    Some (Return ((wrap64 (n + nn),
      if min' \<le> wrap64 (n + nn) then None
      else if 0 < wrap64 (n + nn) \<and> e = EOF then Some ErrUnexpectedEOF
      else Some e), take (nat n) buf1 @ store q (drop (nat n) buf1), src2))"
proof -
  have l: "length buf1 = length buf" using acc len by (rule accumulated_length)
  have "readAtLeastLoop rd min' buf1 n None src1 =
      readAtLeastLoop rd min' (take (nat n) buf1 @ store q (drop (nat n) buf1))
        (wrap64 (n + nn)) (Some e) src2"
    using n len l rd by (subst readAtLeastLoop.simps) simp
  also have "\<dots> = Some (Return (wrap64 (n + nn), Some e,
      take (nat n) buf1 @ store q (drop (nat n) buf1), src2))"
    by (subst readAtLeastLoop.simps) simp
  finally show ?thesis
    using len accumulated_loop [OF acc len] by (simp add: ReadAtLeast_def)
qed

lemma min_rest:
  fixes M :: nat
  assumes "a + c \<le> M" and "c \<le> L"
  shows "c + min (M - (a + c)) (L - c) = min (M - a) L"
  using assms by arith

lemma less_rest:
  fixes M :: nat
  assumes "a + c \<le> M" and "c \<le> L" and "L < M - a"
  shows "L - c < M - (a + c)"
  using assms by arith

lemma readAtLeastLoop_done:
  "\<not> (n < min' \<and> err = None) \<Longrightarrow>
    readAtLeastLoop rd min' buf n err src = Some (Return (n, err, buf, src))"
  by (subst readAtLeastLoop.simps) auto

lemma readAtLeastLoop_read:
  assumes "n < min'" "0 \<le> n" "n \<le> int (length buf)"
    and "rd src (drop (nat n) buf) = ((nn, err1), q, src1)"
  shows "readAtLeastLoop rd min' buf n None src =
    readAtLeastLoop rd min' (take (nat n) buf @ store q (drop (nat n) buf))
      (wrap64 (n + nn)) err1 src1"
  using assms by (subst readAtLeastLoop.simps) simp

text \<open>
  The loop fills the buffer from a source of content \<open>bs\<close> until the buffer is full or
  the source reports \<open>EOF\<close>: rule induction on \<open>contents\<close>.
\<close>

lemma readAtLeastLoop_contents:
  fixes rd :: "'s Reader"
  assumes c: "contents rd src bs" and M: "int M < 2 ^ 63"
  shows "\<forall>b n. length b = M \<longrightarrow> 0 \<le> n \<longrightarrow> n \<le> int M \<longrightarrow>
    (\<exists>e b1 src1. readAtLeastLoop rd (int M) b n None src =
        Some (Return (n + int (min (M - nat n) (length bs)), e, b1, src1)) \<and>
      (e = None \<or> e = Some EOF) \<and> (length bs < M - nat n \<longrightarrow> e = Some EOF))"
  using c
proof (induction rule: contents.induct)
  case (contentsI src bs)
  show ?case
  proof (intro allI impI)
    fix b :: "byte list" and n :: int
    assume lb: "length b = M" and n0: "0 \<le> n" and nM: "n \<le> int M"
    show "\<exists>e b1 src1. readAtLeastLoop rd (int M) b n None src =
        Some (Return (n + int (min (M - nat n) (length bs)), e, b1, src1)) \<and>
      (e = None \<or> e = Some EOF) \<and> (length bs < M - nat n \<longrightarrow> e = Some EOF)"
    proof (cases "n < int M")
      case False
      with nM have "n = int M" by simp
      then show ?thesis
        using readAtLeastLoop_done [of n "int M" None rd b src] by simp
    next
      case True
      let ?p = "drop (nat n) b"
      have lp: "length ?p = M - nat n" using lb by simp
      have "nat n < M" using True n0 by simp
      then have pp: "0 < length ?p" using lp by simp
      from contentsI [OF pp]
      obtain m err q src1 where rd: "rd src ?p = ((m, err), q, src1)"
        and m0: "0 \<le> m" and ml: "nat m \<le> length ?p" and mb: "nat m \<le> length bs"
        and tk: "take (nat m) (store q ?p) = take (nat m) bs"
        and more0: "err = None \<longrightarrow> contents rd src1 (drop (nat m) bs) \<and>
          (\<forall>b n. length b = M \<longrightarrow> 0 \<le> n \<longrightarrow> n \<le> int M \<longrightarrow>
          (\<exists>e b1 src1a. readAtLeastLoop rd (int M) b n None src1 =
              Some (Return (n + int (min (M - nat n) (length (drop (nat m) bs))), e, b1, src1a)) \<and>
            (e = None \<or> e = Some EOF) \<and>
            (length (drop (nat m) bs) < M - nat n \<longrightarrow> e = Some EOF)))"
        and fin: "err \<noteq> None \<longrightarrow> err = Some EOF \<and> nat m = length bs"
        by (elim exE conjE) (rule that, assumption+)
      let ?b1 = "take (nat n) b @ store q ?p"
      have "nat n \<le> M" using n0 nM by simp
      then have d: "int (M - nat n) = int M - n" using n0 by (simp add: of_nat_diff)
      have "m \<le> int (M - nat n)" using ml lp m0 by simp
      then have nm: "n + m \<le> int M" using d by simp
      have wi: "wrap64 (n + m) = n + m"
        using n0 m0 nm M by (intro wrap64_id) (simp add: in64_def)
      have step: "readAtLeastLoop rd (int M) b n None src =
          readAtLeastLoop rd (int M) ?b1 (n + m) err src1"
        using readAtLeastLoop_read [of n "int M" b rd src m err q src1] True n0 nM lb rd wi
        by simp
      have lb1: "length ?b1 = M" using lb n0 nM by simp
      show ?thesis
      proof (cases err)
        case None
        have n0': "0 \<le> n + m" using n0 m0 by simp
        from more0 [THEN mp, OF None, THEN conjunct2, rule_format, OF lb1 n0' nm]
        obtain e b2 src2 where
          r: "readAtLeastLoop rd (int M) ?b1 (n + m) None src1 =
              Some (Return (n + m + int (min (M - nat (n + m)) (length (drop (nat m) bs))),
                e, b2, src2))"
          and e: "e = None \<or> e = Some EOF"
            "length (drop (nat m) bs) < M - nat (n + m) \<longrightarrow> e = Some EOF"
          by (elim exE conjE) (rule that)
        have nn: "nat (n + m) = nat n + nat m" using n0 m0 by (simp add: nat_add_distrib)
        have "nat (n + m) \<le> M" using nm by simp
        then have le: "nat n + nat m \<le> M" unfolding nn .
        have "nat m + min (M - (nat n + nat m)) (length bs - nat m) = min (M - nat n) (length bs)"
          using le mb by (rule min_rest)
        then have "int (nat m) + int (min (M - (nat n + nat m)) (length bs - nat m)) =
            int (min (M - nat n) (length bs))"
          by (simp only: of_nat_add [symmetric])
        then have tot: "n + m + int (min (M - nat (n + m)) (length (drop (nat m) bs))) =
            n + int (min (M - nat n) (length bs))"
          using m0 by (simp add: nn)
        have "length bs < M - nat n \<longrightarrow> length bs - nat m < M - (nat n + nat m)"
          using less_rest [OF le mb] by blast
        then have imp: "length bs < M - nat n \<longrightarrow> e = Some EOF"
          using e(2) by (simp add: nn)
        have "readAtLeastLoop rd (int M) b n None src =
            Some (Return (n + int (min (M - nat n) (length bs)), e, b2, src2))"
          using step r unfolding None tot by simp
        with e(1) imp show ?thesis by (intro exI [of _ e] exI [of _ b2] exI [of _ src2]) simp
      next
        case (Some x)
        with fin have x: "err = Some EOF" and all: "nat m = length bs" by auto
        have "readAtLeastLoop rd (int M) ?b1 (n + m) err src1 =
            Some (Return (n + m, err, ?b1, src1))"
          using x by (intro readAtLeastLoop_done) simp
        moreover have "min (M - nat n) (length bs) = nat m"
          using all ml lp by simp
        then have "n + m = n + int (min (M - nat n) (length bs))"
          using m0 by simp
        ultimately have "readAtLeastLoop rd (int M) b n None src =
            Some (Return (n + int (min (M - nat n) (length bs)), Some EOF, ?b1, src1))"
          using step x by simp
        then show ?thesis
          by (intro exI [of _ "Some EOF"] exI [of _ ?b1] exI [of _ src1]) simp
      qed
    qed
  qed
qed

lemma ReadFull_contents:
  fixes rd :: "'s Reader"
  assumes c: "contents rd src bs" and M: "int (length buf) < 2 ^ 63"
  shows "\<exists>buf1 src1. ReadFull rd src buf =
    Some (Return ((int (min (length buf) (length bs)),
      if length buf \<le> length bs then None
      else if bs = [] then Some EOF else Some ErrUnexpectedEOF), buf1, src1))"
proof -
  from readAtLeastLoop_contents [OF c M, rule_format, of buf 0]
  obtain e b1 src1 where
    r: "readAtLeastLoop rd (int (length buf)) buf 0 None src =
        Some (Return (0 + int (min (length buf - nat 0) (length bs)), e, b1, src1))"
    and e: "e = None \<or> e = Some EOF" "length bs < length buf - nat 0 \<longrightarrow> e = Some EOF"
    by auto
  have r': "readAtLeastLoop rd (int (length buf)) buf 0 None src =
      Some (Return (int (min (length buf) (length bs)), e, b1, src1))"
    using r by simp
  have st: "(if int (length buf) \<le> int (min (length buf) (length bs)) then None
       else if 0 < int (min (length buf) (length bs)) \<and> e = Some EOF
         then Some ErrUnexpectedEOF else e) =
      (if length buf \<le> length bs then None
       else if bs = [] then Some EOF else Some ErrUnexpectedEOF)"
    using e by (cases "length buf \<le> length bs"; cases "bs = []") auto
  show ?thesis
    unfolding ReadFull_def ReadAtLeast_def r' using st by simp
qed

lemma accumulated_bytesRead_123:
  "accumulated bytesRead 5 [0, 0, 0, 0, 0] [1, 2, 3] 3 [1, 2, 3, 0, 0] []"
proof -
  have "accumulated bytesRead 5 [0, 0, 0, 0, 0] [1, 2, 3] (wrap64 (0 + 3))
      (take (nat 0) [0, 0, 0, 0, 0] @ store [1, 2, 3] (drop (nat 0) [0, 0, 0, 0, 0])) []"
    by (rule accumulated_read [OF accumulated_start]) (simp_all add: bytesRead_def)
  then show ?thesis by (simp add: wrap64_def store_def)
qed

section \<open>SectionReader\<close>

text \<open>
  In 64-bit arithmetic the length that \<^verbatim>\<open>ReadAt\<close> clamps to is the size of the window
  less the local offset, and is positive: the slice expression cannot panic.
\<close>

lemma ReadAt_clamp:
  assumes "0 \<le> off" "off < wrap64 (lim - base)"
  shows "wrap64 (lim - wrap64 (off + base)) = wrap64 (lim - base) - off"
proof -
  have "wrap64 (lim - wrap64 (off + base)) = wrap64 (lim - (off + base))"
    by (rule wrap64_diff_wrap64)
  also have "\<dots> = wrap64 (lim - base - off)" by (simp add: algebra_simps)
  also have "\<dots> = wrap64 (wrap64 (lim - base) - off)" by (simp add: wrap64_wrap64_diff)
  also have "\<dots> = wrap64 (lim - base) - off"
  proof (rule wrap64_id)
    have "in64 (wrap64 (lim - base))" by (rule in64_wrap64)
    with assms show "in64 (wrap64 (lim - base) - off)" by (simp add: in64_def)
  qed
  finally show ?thesis .
qed

lemma SectionReader_ReadAt_outside:
  "off < 0 \<or> wrap64 (srLimit s - srBase s) \<le> off \<Longrightarrow>
    SectionReader_ReadAt ra s p off = Return ((0, Some EOF), p, srR s)"
  by (auto simp: SectionReader_ReadAt_def)

lemma SectionReader_ReadAt_clamped:
  assumes "0 \<le> off" "off < wrap64 (srLimit s - srBase s)"
    and "wrap64 (srLimit s - srBase s) - off < int (length p)"
    and "ra (srR s) (take (nat (wrap64 (srLimit s - srBase s) - off)) p)
        (wrap64 (off + srBase s)) = ((n, err), q, r1)"
  shows "SectionReader_ReadAt ra s p off =
    Return ((n, if err = None then Some EOF else err),
      store q (take (nat (wrap64 (srLimit s - srBase s) - off)) p) @
        drop (nat (wrap64 (srLimit s - srBase s) - off)) p, r1)"
proof -
  have c: "wrap64 (srLimit s - wrap64 (off + srBase s)) = wrap64 (srLimit s - srBase s) - off"
    using assms(1,2) by (rule ReadAt_clamp)
  have l: "min (length p) (nat (wrap64 (srLimit s - srBase s) - off)) =
      nat (wrap64 (srLimit s - srBase s) - off)"
    using assms(1-3) by simp
  show ?thesis
    using assms by (simp add: SectionReader_ReadAt_def c l Let_def)
qed

lemma SectionReader_ReadAt_inside:
  assumes "0 \<le> off" "off < wrap64 (srLimit s - srBase s)"
    and "int (length p) \<le> wrap64 (srLimit s - srBase s) - off"
    and "ra (srR s) p (wrap64 (off + srBase s)) = ((n, err), q, r1)"
  shows "SectionReader_ReadAt ra s p off = Return ((n, err), store q p, r1)"
proof -
  have c: "wrap64 (srLimit s - wrap64 (off + srBase s)) = wrap64 (srLimit s - srBase s) - off"
    using assms(1,2) by (rule ReadAt_clamp)
  show ?thesis
    using assms by (simp add: SectionReader_ReadAt_def c Let_def)
qed

lemma SectionReader_Seek_valid:
  assumes "whence = SeekStart \<or> whence = SeekCurrent \<or> whence = SeekEnd"
  shows "SectionReader_Seek s offset whence =
    (if wrap64 (offset + seekOrigin s whence) < srBase s then ((0, Some errOffset), s)
     else ((wrap64 (wrap64 (offset + seekOrigin s whence) - srBase s), None),
           s\<lparr>srOff := wrap64 (offset + seekOrigin s whence)\<rparr>))"
  using assms
  by (auto simp: SectionReader_Seek_def seekOrigin_def SeekStart_def SeekCurrent_def
      SeekEnd_def Let_def)

lemma SectionReader_Seek_exact:
  assumes "whence = SeekStart \<or> whence = SeekCurrent \<or> whence = SeekEnd"
    and "in64 (offset + seekOrigin s whence)" and "0 \<le> srBase s"
    and "srBase s \<le> offset + seekOrigin s whence"
  shows "SectionReader_Seek s offset whence =
    ((offset + seekOrigin s whence - srBase s, None),
     s\<lparr>srOff := offset + seekOrigin s whence\<rparr>)"
proof -
  have a: "wrap64 (offset + seekOrigin s whence) = offset + seekOrigin s whence"
    using assms(2) by (rule wrap64_id)
  have "in64 (offset + seekOrigin s whence - srBase s)"
    using assms(2-4) by (simp add: in64_def)
  then have b: "wrap64 (offset + seekOrigin s whence - srBase s) =
      offset + seekOrigin s whence - srBase s"
    by (rule wrap64_id)
  show ?thesis
    using assms(4) unfolding SectionReader_Seek_valid [OF assms(1)] a b by simp
qed

lemma SectionReader_Seek_whence:
  "whence \<noteq> SeekStart \<and> whence \<noteq> SeekCurrent \<and> whence \<noteq> SeekEnd \<Longrightarrow>
    SectionReader_Seek s offset whence = ((0, Some errWhence), s)"
  by (simp add: SectionReader_Seek_def)

lemma SectionReader_Read_at_end:
  "srLimit s \<le> srOff s \<Longrightarrow> SectionReader_Read ra s p = Return ((0, Some EOF), p, s)"
  by (simp add: SectionReader_Read_def)

lemma SectionReader_Read_10_5:
  "\<exists>res p1 r1 off1. SectionReader_Read ra (NewSectionReader r 10 5) p =
      Return (res, p1, \<lparr>srR = r1, srBase = 10, srOff = off1, srLimit = 15\<rparr>)"
  by (simp add: SectionReader_Read_def NewSectionReader_def maxint64_def wrap64_def Let_def
      split: prod.split)

lemma SectionReader_Seek_end_10_5:
  "SectionReader_Seek \<lparr>srR = r1, srBase = 10, srOff = off1, srLimit = 15\<rparr> 0 SeekEnd =
    ((5, None), \<lparr>srR = r1, srBase = 10, srOff = 15, srLimit = 15\<rparr>)"
  by (simp add: SectionReader_Seek_def SeekStart_def SeekCurrent_def SeekEnd_def wrap64_def)

text \<open>For a length that is not negative the constructor's limit is the saturated sum.\<close>

lemma NewSectionReader_limit_nonnegative:
  assumes "in64 off" "0 \<le> n" "in64 n"
  shows "srLimit (NewSectionReader r off n) =
    (if off + n < 2 ^ 63 then off + n else 2 ^ 63 - 1)"
  using assms
  by (auto simp add: NewSectionReader_def in64_def wrap64_def maxint64_def Let_def)

text \<open>
  For a negative length the subtraction \<^verbatim>\<open>maxint64 - n\<close> of the guard overflows, and the
  limit is the greatest offset although the sum is representable.
\<close>

lemma NewSectionReader_limit_negative:
  assumes "in64 off" "n < 0" "in64 n" "in64 (off + n)"
  shows "srLimit (NewSectionReader r off n) = 2 ^ 63 - 1"
proof -
  have "wrap64 (maxint64 - n) = maxint64 - n - 2 ^ 64"
    using assms by (intro wrap64_over) (simp_all add: maxint64_def in64_def)
  then show ?thesis
    using assms by (simp add: NewSectionReader_def in64_def maxint64_def Let_def)
qed

section \<open>teeReader.Read\<close>

lemma teeReader_Read_idle:
  assumes "rd (teeR t) p = ((n, err), q, r1)" "n \<le> 0"
  shows "teeReader_Read rd wr t p =
    Return ((n, err), store q p, \<lparr>teeR = r1, teeW = teeW t\<rparr>)"
  using assms by (simp add: teeReader_Read_def)

lemma teeReader_Read_writes:
  assumes "rd (teeR t) p = ((n, err), q, r1)" "0 < n" "nat n \<le> length p"
    and "wr (teeW t) (take (nat n) (store q p)) = ((nw, ew), w1)"
  shows "teeReader_Read rd wr t p =
    Return ((if ew = None then (n, err) else (nw, ew)), store q p,
      \<lparr>teeR = r1, teeW = w1\<rparr>)"
  using assms by (simp add: teeReader_Read_def Let_def)

section \<open>Claims\<close>

text \<open>
  C1, as amended. For every source whose total content is a byte sequence \<open>bs\<close> of
  length \<open>L\<close>, a length that an \<^verbatim>\<open>int64\<close> holds, and every sink that accepts all bytes it
  is given: when neither the source offers \<^verbatim>\<open>WriteTo\<close> nor the sink \<^verbatim>\<open>ReadFrom\<close>,
  \<^verbatim>\<open>Copy(sink, source)\<close> returns \<open>(L, nil)\<close>, the end of the stream not being reported as
  a failure, and the sink has received exactly the bytes \<open>bs\<close>, in order, after what it
  held; when the source offers \<^verbatim>\<open>WriteTo\<close>, \<^verbatim>\<open>Copy\<close> returns what
  \<^verbatim>\<open>source.WriteTo(sink)\<close> returns; otherwise, when the sink offers \<^verbatim>\<open>ReadFrom\<close>,
  \<^verbatim>\<open>Copy\<close> returns what \<^verbatim>\<open>sink.ReadFrom(source)\<close> returns, which for the package's
  \<^verbatim>\<open>Discard\<close> is \<open>(L, nil)\<close>.
\<close>

theorem Copy_transfers_or_delegates:
  fixes wr :: "'w Writer" and rd :: "'s Reader"
  assumes "contents rd src bs" and "acceptsAll wr recv" and "int (length bs) < 2 ^ 63"
  shows
    "(\<exists>dst1 src1. Copy None None lim wr rd dst src =
        Some (Return ((int (length bs), None), dst1, src1)) \<and> recv dst1 = recv dst @ bs) \<and>
     Copy (Some writeTo) rf lim wr rd dst src = writeTo src wr dst \<and>
     Copy None (Some readFrom) lim wr rd dst src = readFrom dst rd src \<and>
     (length bufp = 8192 \<longrightarrow>
        (\<exists>bufp1 src1. Copy None (Some discard_ReadFrom) lim discard_Write rd bufp src =
            Some (Return ((int (length bs), None), bufp1, src1)) \<and> length bufp1 = 8192))"
proof (intro conjI impI)
  show "\<exists>dst1 src1. Copy None None lim wr rd dst src =
      Some (Return ((int (length bs), None), dst1, src1)) \<and> recv dst1 = recv dst @ bs"
    using assms by (rule Copy_contents)
next
  show "Copy (Some writeTo) rf lim wr rd dst src = writeTo src wr dst"
    by (rule Copy_WriteTo)
next
  show "Copy None (Some readFrom) lim wr rd dst src = readFrom dst rd src"
    by (rule Copy_ReadFrom)
next
  assume "length bufp = 8192"
  with assms(1,3)
  show "\<exists>bufp1 src1. Copy None (Some discard_ReadFrom) lim discard_Write rd bufp src =
      Some (Return ((int (length bs), None), bufp1, src1)) \<and> length bufp1 = 8192"
    by (rule Copy_Discard_contents)
qed

theorem Copy_transfers_or_delegates_witness:
  "(\<exists>dst1 src1. Copy None None None bufWrite bytesRead [] [104, 101, 108, 108, 111] =
      Some (Return ((5, None), dst1, src1)) \<and> dst1 = [104, 101, 108, 108, 111]) \<and>
   (\<exists>bufp1 src1. Copy None (Some discard_ReadFrom) None discard_Write bytesRead
      (replicate 8192 0) [104, 101, 108, 108, 111] =
      Some (Return ((5, None), bufp1, src1)) \<and> length bufp1 = 8192)"
proof -
  note t = Copy_transfers_or_delegates
    [where rd = bytesRead and src = "[104, 101, 108, 108, 111]"
      and bs = "[104, 101, 108, 108, 111]" and wr = bufWrite and recv = "\<lambda>w. w"
      and lim = None and dst = "[]" and bufp = "replicate 8192 0",
      OF contents_bytesRead acceptsAll_bufWrite]
  have l: "int (length [104 :: byte, 101, 108, 108, 111]) < 2 ^ 63" by simp
  have a: "\<exists>dst1 src1. Copy None None None bufWrite bytesRead [] [104, 101, 108, 108, 111] =
      Some (Return ((int (length [104 :: byte, 101, 108, 108, 111]), None), dst1, src1)) \<and>
      dst1 = [] @ [104, 101, 108, 108, 111]"
    by (rule t [OF l, THEN conjunct1])
  have b: "\<exists>bufp1 src1. Copy None (Some discard_ReadFrom) None discard_Write bytesRead
      (replicate 8192 0) [104, 101, 108, 108, 111] =
      Some (Return ((int (length [104 :: byte, 101, 108, 108, 111]), None), bufp1, src1)) \<and>
      length bufp1 = 8192"
    by (rule t [OF l, THEN conjunct2, THEN conjunct2, THEN conjunct2, THEN mp])
      (rule length_replicate)
  from a b show ?thesis by simp
qed

text \<open>
  The claim as it was stated fails where a bulk method is offered: for a source that
  reads as the three bytes 1, 2, 3 and whose \<^verbatim>\<open>WriteTo\<close> fails, and for a sink that
  accepts every write and whose \<^verbatim>\<open>ReadFrom\<close> fails, \<^verbatim>\<open>Copy\<close> returns the failure of the
  bulk method and transfers nothing.
\<close>

theorem Copy_bulk_method_counterexample:
  "contents bytesRead [1, 2, 3] [1, 2, 3] \<and> acceptsAll bufWrite id \<and>
   Copy (Some badWriteTo) None None bufWrite bytesRead [] [1, 2, 3] =
      Some (Return ((0, Some ErrShortWrite), [], [1, 2, 3])) \<and>
   Copy None (Some badReadFrom) None bufWrite bytesRead [] [1, 2, 3] =
      Some (Return ((0, Some ErrShortWrite), [], [1, 2, 3]))"
  by (simp add: contents_bytesRead acceptsAll_def bufWrite_def Copy_def copyBuffer_def
      badWriteTo_def badReadFrom_def)

text \<open>
  C2. For a source of total length \<open>L\<close> and a count \<open>n \<le> L\<close>, \<^verbatim>\<open>CopyN(sink, source, n)\<close>
  is to return \<open>(n, nil)\<close>, and by its own doc comment \<open>written == n\<close> if and only if
  \<open>err == nil\<close>. For the count \<open>-1\<close> and a source of the three bytes 1, 2, 3 the code
  returns \<open>(0, nil)\<close>: no failure, and a count that is not \<open>n\<close>.
\<close>

theorem CopyN_negative_count:
  "(- 1 :: int) \<le> int (length [1 :: byte, 2, 3]) \<and>
   CopyN None bufWrite bytesRead [] [1, 2, 3] (- 1) = Some (Return ((0, None), [], [1, 2, 3]))"
proof -
  have "CopyN None bufWrite bytesRead [] [1, 2, 3] (- 1) =
      Some (Return ((0, None), [], [1, 2, 3]))"
    by (rule CopyN_negative) simp
  then show ?thesis by simp
qed

text \<open>
  C3, as amended. In the staging loop of \<^verbatim>\<open>Copy\<close>, for every source and sink, when a
  read has delivered \<open>nr > 0\<close> bytes and the write of them returns \<open>(nw, ew)\<close>:
  a count that is negative or exceeds \<open>nr\<close>, with no explicit failure, is reported as
  \<open>errInvalidWrite\<close> and adds nothing to the total; a count \<open>0 \<le> nw < nr\<close> with no
  explicit failure is reported as \<open>ErrShortWrite\<close>; an explicit failure of the write is
  the failure reported. In each case the transfer stops.
\<close>

theorem copyLoop_write_faults:
  assumes "rd src buf = ((nr, er), q, src1)" and "0 < nr" and "nat nr \<le> length buf"
    and "wr dst (take (nat nr) (store q buf)) = ((nw, ew), dst1)"
    and "in64 written"
  shows
    "((nw < 0 \<or> nr < nw) \<and> ew = None \<longrightarrow>
        copyLoop wr rd buf written dst src =
          Some (Return ((written, Some errInvalidWrite), dst1, src1))) \<and>
     (0 \<le> nw \<and> nw < nr \<and> ew = None \<longrightarrow>
        copyLoop wr rd buf written dst src =
          Some (Return ((wrap64 (written + nw), Some ErrShortWrite), dst1, src1))) \<and>
     (ew \<noteq> None \<longrightarrow>
        copyLoop wr rd buf written dst src =
          Some (Return ((wrap64 (written + (if nw < 0 \<or> nr < nw then 0 else nw)), ew),
            dst1, src1)))"
proof (intro conjI impI)
  assume "(nw < 0 \<or> nr < nw) \<and> ew = None"
  then show "copyLoop wr rd buf written dst src =
      Some (Return ((written, Some errInvalidWrite), dst1, src1))"
    using copyLoop_invalid_write [of rd src buf nr er q src1 wr dst nw ew dst1 written]
      assms(1-4) wrap64_id [OF assms(5)] by simp
next
  assume "0 \<le> nw \<and> nw < nr \<and> ew = None"
  then show "copyLoop wr rd buf written dst src =
      Some (Return ((wrap64 (written + nw), Some ErrShortWrite), dst1, src1))"
    using copyLoop_short_write [of rd src buf nr er q src1 wr dst nw ew dst1 written]
      assms(1-4) by simp
next
  assume "ew \<noteq> None"
  then show "copyLoop wr rd buf written dst src =
      Some (Return ((wrap64 (written + (if nw < 0 \<or> nr < nw then 0 else nw)), ew), dst1, src1))"
    using copyLoop_failed_write [of rd src buf nr er q src1 wr dst nw ew dst1 written]
      assms(1-4) by simp
qed

theorem copyLoop_write_faults_witness:
  "copyLoop overWrite bytesRead [0, 0, 0, 0] 0 [] [1, 2, 3] =
      Some (Return ((0, Some errInvalidWrite), [1, 2, 3], [])) \<and>
   copyLoop shortWrite bytesRead [0, 0, 0, 0] 0 [] [1, 2, 3] =
      Some (Return ((2, Some ErrShortWrite), [1, 2], [])) \<and>
   copyLoop failWrite bytesRead [0, 0, 0, 0] 0 [] [1, 2, 3] =
      Some (Return ((3, Some (OtherError 1)), [1, 2, 3], []))"
  using
    copyLoop_write_faults [of bytesRead "[1, 2, 3]" "[0, 0, 0, 0]" 3 None "[1, 2, 3]" "[]"
      overWrite "[]" 4 None "[1, 2, 3]" 0]
    copyLoop_write_faults [of bytesRead "[1, 2, 3]" "[0, 0, 0, 0]" 3 None "[1, 2, 3]" "[]"
      shortWrite "[]" 2 None "[1, 2]" 0]
    copyLoop_write_faults [of bytesRead "[1, 2, 3]" "[0, 0, 0, 0]" 3 None "[1, 2, 3]" "[]"
      failWrite "[]" 3 "Some (OtherError 1)" "[1, 2, 3]" 0]
  by (simp add: bytesRead_123 store_def overWrite_def shortWrite_def failWrite_def in64_def
      wrap64_def)

text \<open>
  The claim as it was stated fails where the write returns fewer bytes than it was given
  and no failure: \<^verbatim>\<open>Copy\<close> of the three bytes 1, 2, 3 into a sink that takes two of them
  reports \<open>ErrShortWrite\<close>, not \<open>errInvalidWrite\<close>.
\<close>

theorem Copy_short_write_counterexample:
  "Copy None None None shortWrite bytesRead [] [1, 2, 3] =
      Some (Return ((2, Some ErrShortWrite), [1, 2], []))"
proof -
  define buf :: "byte list" where "buf = replicate (stagingSize None) 0"
  have lb: "length buf = 32768"
    unfolding buf_def length_replicate by (rule stagingSize_None)
  have r: "bytesRead [1, 2, 3] buf = ((3, None), [1, 2, 3], [])"
    by (simp add: bytesRead_def lb)
  have t: "take (nat 3) (store [1, 2, 3] buf) = [1, 2, 3]"
    by (simp add: store_def lb)
  have w: "shortWrite [] (take (nat 3) (store [1, 2, 3] buf)) = ((2, None), [1, 2])"
    unfolding t by (simp add: shortWrite_def)
  have "copyLoop shortWrite bytesRead buf 0 [] [1, 2, 3] =
      Some (Return ((wrap64 (0 + 2), Some ErrShortWrite), [1, 2], []))"
    using copyLoop_short_write
      [of bytesRead "[1, 2, 3]" buf 3 None "[1, 2, 3]" "[]" shortWrite "[]" 2 None "[1, 2]" 0]
      r w lb by simp
  then show ?thesis
    by (simp add: Copy_def copyBuffer_def buf_def [symmetric] wrap64_def)
qed

text \<open>
  C10. Whenever the \<^verbatim>\<open>Copy\<close> that \<^verbatim>\<open>CopyN(sink, source, n)\<close> runs on the limited reader
  reports exactly \<open>n\<close> bytes transferred, \<^verbatim>\<open>CopyN\<close> returns \<open>(n, nil)\<close>, whatever failure
  that \<^verbatim>\<open>Copy\<close> reported with the full count.
\<close>

theorem CopyN_full_count_discards_failure:
  assumes "Copy None rf (Some n) wr (LimitedReader_Read rd) dst (LimitReader src n) =
      Some (Return ((n, err), dst1, l1))"
  shows "CopyN rf wr rd dst src n = Some (Return ((n, None), dst1, lrR l1))"
  using assms by (simp add: CopyN_def)

theorem CopyN_full_count_discards_failure_witness:
  "Copy None None (Some 3) failWrite (LimitedReader_Read bytesRead) []
      (LimitReader [1, 2, 3] 3) =
    Some (Return ((3, Some (OtherError 1)), [1, 2, 3], \<lparr>lrR = [], lrN = 0\<rparr>)) \<and>
   CopyN None failWrite bytesRead [] [1, 2, 3] 3 = Some (Return ((3, None), [1, 2, 3], []))"
  using CopyN_full_count_discards_failure [OF Copy_limited_failWrite] Copy_limited_failWrite
  by simp

text \<open>
  C4. For every reader, buffer \<open>buf\<close> and count \<open>min\<close>:
  \<^verbatim>\<open>ReadAtLeast(reader, buf, min)\<close> returns \<open>(0, ErrShortBuffer)\<close> before any read when
  \<open>len(buf) < min\<close>; on every return, \<open>n \<ge> min\<close> if and only if no failure is reported;
  when a read hands over a failure \<open>e\<close> while fewer than \<open>min\<close> bytes were accumulated
  and the total is then \<open>m\<close>, the call reports success if \<open>m \<ge> min\<close> (the failure is
  discarded), \<open>ErrUnexpectedEOF\<close> if \<open>e\<close> is \<open>EOF\<close> and \<open>0 < m < min\<close>, and \<open>e\<close>
  itself otherwise, so \<open>EOF\<close> after exactly 0 bytes stays \<open>EOF\<close>.
  \<^verbatim>\<open>ReadFull(reader, buf)\<close> is \<^verbatim>\<open>ReadAtLeast(reader, buf, len(buf))\<close>: on a source of
  total content \<open>bs\<close> it returns \<open>(len(buf), nil)\<close> when \<open>bs\<close> has at least \<open>len(buf)\<close>
  bytes, \<open>(0, EOF)\<close> when \<open>bs\<close> is empty and \<open>buf\<close> is not, and
  \<open>(len(bs), ErrUnexpectedEOF)\<close> otherwise.
\<close>

theorem ReadAtLeast_contract:
  "(int (length buf) < min' \<longrightarrow>
      ReadAtLeast rd src buf min' = Some (Return ((0, Some ErrShortBuffer), buf, src))) \<and>
   (ReadAtLeast rd src buf min' = Some (Return ((k, st), b, s)) \<longrightarrow>
      (min' \<le> k) = (st = None)) \<and>
   (accumulated rd min' buf src n buf1 src1 \<and> min' \<le> int (length buf) \<and>
    0 \<le> n \<and> n < min' \<and> rd src1 (drop (nat n) buf1) = ((nn, Some e), q, src2) \<longrightarrow>
      ReadAtLeast rd src buf min' =
        Some (Return ((wrap64 (n + nn),
          if min' \<le> wrap64 (n + nn) then None
          else if 0 < wrap64 (n + nn) \<and> e = EOF then Some ErrUnexpectedEOF
          else Some e), take (nat n) buf1 @ store q (drop (nat n) buf1), src2))) \<and>
   ReadFull rd src buf = ReadAtLeast rd src buf (int (length buf)) \<and>
   (contents rd src bs \<and> int (length buf) < 2 ^ 63 \<longrightarrow>
      (\<exists>buf2 src3. ReadFull rd src buf =
        Some (Return ((int (min (length buf) (length bs)),
          if length buf \<le> length bs then None
          else if bs = [] then Some EOF else Some ErrUnexpectedEOF), buf2, src3))))"
proof (intro conjI impI)
  assume "int (length buf) < min'"
  then show "ReadAtLeast rd src buf min' = Some (Return ((0, Some ErrShortBuffer), buf, src))"
    by (simp add: ReadAtLeast_def)
next
  assume "ReadAtLeast rd src buf min' = Some (Return ((k, st), b, s))"
  then show "(min' \<le> k) = (st = None)" by (rule ReadAtLeast_iff)
next
  assume a: "accumulated rd min' buf src n buf1 src1 \<and> min' \<le> int (length buf) \<and>
    0 \<le> n \<and> n < min' \<and> rd src1 (drop (nat n) buf1) = ((nn, Some e), q, src2)"
  show "ReadAtLeast rd src buf min' =
        Some (Return ((wrap64 (n + nn),
          if min' \<le> wrap64 (n + nn) then None
          else if 0 < wrap64 (n + nn) \<and> e = EOF then Some ErrUnexpectedEOF
          else Some e), take (nat n) buf1 @ store q (drop (nat n) buf1), src2))"
    using ReadAtLeast_failure [of rd min' buf src n buf1 src1 nn e q src2] a by blast
next
  show "ReadFull rd src buf = ReadAtLeast rd src buf (int (length buf))"
    by (simp add: ReadFull_def)
next
  assume "contents rd src bs \<and> int (length buf) < 2 ^ 63"
  then show "\<exists>buf2 src3. ReadFull rd src buf =
      Some (Return ((int (min (length buf) (length bs)),
        if length buf \<le> length bs then None
        else if bs = [] then Some EOF else Some ErrUnexpectedEOF), buf2, src3))"
    using ReadFull_contents [of rd src bs buf] by blast
qed

theorem ReadAtLeast_contract_witness:
  "ReadAtLeast bytesRead [1, 2, 3] [0, 0] 3 =
      Some (Return ((0, Some ErrShortBuffer), [0, 0], [1, 2, 3])) \<and>
   ReadAtLeast bytesRead [1, 2, 3] [0, 0, 0, 0, 0] 5 =
      Some (Return ((3, Some ErrUnexpectedEOF), [1, 2, 3, 0, 0], [])) \<and>
   ReadAtLeast bytesRead [] [0, 0] 2 = Some (Return ((0, Some EOF), [0, 0], [])) \<and>
   ReadAtLeast eagerRead [1, 2, 3] [0, 0, 0] 2 = Some (Return ((3, None), [1, 2, 3], [])) \<and>
   ReadFull bytesRead [1, 2, 3] [0, 0, 0, 0, 0] =
      Some (Return ((3, Some ErrUnexpectedEOF), [1, 2, 3, 0, 0], [])) \<and>
   (\<exists>buf2 src3. ReadFull bytesRead [1, 2, 3, 4, 5] [0, 0, 0] =
      Some (Return ((3, None), buf2, src3)))"
proof -
  have a: "ReadAtLeast bytesRead [1, 2, 3] [0, 0] 3 =
      Some (Return ((0, Some ErrShortBuffer), [0, 0], [1, 2, 3]))"
    by (rule ReadAtLeast_contract [where buf = "[0, 0]" and min' = 3 and rd = bytesRead
        and src = "[1, 2, 3]", THEN conjunct1, THEN mp]) simp
  have b: "ReadAtLeast bytesRead [1, 2, 3] [0, 0, 0, 0, 0] 5 =
      Some (Return ((wrap64 (3 + 0),
          if 5 \<le> wrap64 (3 + 0) then None
          else if 0 < wrap64 (3 + 0) \<and> EOF = EOF then Some ErrUnexpectedEOF
          else Some EOF),
        take (nat 3) [1, 2, 3, 0, 0] @ store [] (drop (nat 3) [1, 2, 3, 0, 0]), []))"
    by (rule ReadAtLeast_contract [where buf = "[0, 0, 0, 0, 0]" and min' = 5 and rd = bytesRead
        and src = "[1, 2, 3]" and n = 3 and ?buf1.0 = "[1, 2, 3, 0, 0]" and ?src1.0 = "[]"
        and nn = 0 and e = EOF and q = "[]" and ?src2.0 = "[]",
        THEN conjunct2, THEN conjunct2, THEN conjunct1, THEN mp])
      (simp add: accumulated_bytesRead_123 bytesRead_def)
  have c: "ReadAtLeast bytesRead [] [0, 0] 2 =
      Some (Return ((wrap64 (0 + 0),
          if 2 \<le> wrap64 (0 + 0) then None
          else if 0 < wrap64 (0 + 0) \<and> EOF = EOF then Some ErrUnexpectedEOF
          else Some EOF),
        take (nat 0) [0, 0] @ store [] (drop (nat 0) [0, 0]), []))"
    by (rule ReadAtLeast_contract [where buf = "[0, 0]" and min' = 2 and rd = bytesRead
        and src = "[]" and n = 0 and ?buf1.0 = "[0, 0]" and ?src1.0 = "[]"
        and nn = 0 and e = EOF and q = "[]" and ?src2.0 = "[]",
        THEN conjunct2, THEN conjunct2, THEN conjunct1, THEN mp])
      (simp add: accumulated_start bytesRead_def)
  have d: "ReadAtLeast eagerRead [1, 2, 3] [0, 0, 0] 2 =
      Some (Return ((wrap64 (0 + 3),
          if 2 \<le> wrap64 (0 + 3) then None
          else if 0 < wrap64 (0 + 3) \<and> EOF = EOF then Some ErrUnexpectedEOF
          else Some EOF),
        take (nat 0) [0, 0, 0] @ store [1, 2, 3] (drop (nat 0) [0, 0, 0]), []))"
    by (rule ReadAtLeast_contract [where buf = "[0, 0, 0]" and min' = 2 and rd = eagerRead
        and src = "[1, 2, 3]" and n = 0 and ?buf1.0 = "[0, 0, 0]" and ?src1.0 = "[1, 2, 3]"
        and nn = 3 and e = EOF and q = "[1, 2, 3]" and ?src2.0 = "[]",
        THEN conjunct2, THEN conjunct2, THEN conjunct1, THEN mp])
      (simp add: accumulated_start eagerRead_def)
  have e: "ReadFull bytesRead [1, 2, 3] [0, 0, 0, 0, 0] =
      ReadAtLeast bytesRead [1, 2, 3] [0, 0, 0, 0, 0] (int (length [0 :: byte, 0, 0, 0, 0]))"
    by (rule ReadAtLeast_contract [where buf = "[0, 0, 0, 0, 0]" and rd = bytesRead
        and src = "[1, 2, 3]",
        THEN conjunct2, THEN conjunct2, THEN conjunct2, THEN conjunct1])
  have f: "\<exists>buf2 src3. ReadFull bytesRead [1, 2, 3, 4, 5] [0, 0, 0] =
      Some (Return ((int (min (length [0 :: byte, 0, 0]) (length [1 :: byte, 2, 3, 4, 5])),
        if length [0 :: byte, 0, 0] \<le> length [1 :: byte, 2, 3, 4, 5] then None
        else if [1 :: byte, 2, 3, 4, 5] = [] then Some EOF else Some ErrUnexpectedEOF),
        buf2, src3))"
    by (rule ReadAtLeast_contract [where buf = "[0, 0, 0]" and rd = bytesRead
        and src = "[1, 2, 3, 4, 5]" and bs = "[1, 2, 3, 4, 5]",
        THEN conjunct2, THEN conjunct2, THEN conjunct2, THEN conjunct2, THEN mp])
      (simp add: contents_bytesRead)
  have b': "ReadAtLeast bytesRead [1, 2, 3] [0, 0, 0, 0, 0] 5 =
      Some (Return ((3, Some ErrUnexpectedEOF), [1, 2, 3, 0, 0], []))"
    using b by (simp add: wrap64_def store_def)
  have c': "ReadAtLeast bytesRead [] [0, 0] 2 = Some (Return ((0, Some EOF), [0, 0], []))"
    using c by (simp add: wrap64_def store_def)
  have d': "ReadAtLeast eagerRead [1, 2, 3] [0, 0, 0] 2 =
      Some (Return ((3, None), [1, 2, 3], []))"
    using d by (simp add: wrap64_def store_def)
  have e': "ReadFull bytesRead [1, 2, 3] [0, 0, 0, 0, 0] =
      Some (Return ((3, Some ErrUnexpectedEOF), [1, 2, 3, 0, 0], []))"
    using e b' by simp
  have f': "\<exists>buf2 src3. ReadFull bytesRead [1, 2, 3, 4, 5] [0, 0, 0] =
      Some (Return ((3, None), buf2, src3))"
    using f by simp
  from a b' c' d' e' f' show ?thesis by (intro conjI)
qed

text \<open>
  C5, as amended. For every \<^verbatim>\<open>LimitedReader\<close> with \<open>N\<close> bytes remaining: once
  \<open>N \<le> 0\<close>, \<^verbatim>\<open>Read\<close> returns \<open>(0, EOF)\<close> and leaves the underlying reader, the limit
  and the slice as they were; otherwise it hands the underlying reader the slice
  clamped to \<open>N\<close>, returns its count and status unchanged and takes the count off \<open>N\<close>.
  Over an underlying reader whose counts are not negative, \<open>N\<close> never increases across
  \<^verbatim>\<open>Read\<close> calls. Over an underlying reader whose counts are between 0 and the length of
  the slice it is given, the counts of all calls add up to at most \<open>N\<close>, or to 0 when
  \<open>N\<close> is negative.
\<close>

theorem LimitedReader_Read_limits:
  fixes rd :: "'s Reader"
  assumes "in64 (lrN l)"
  shows
    "(lrN l \<le> 0 \<longrightarrow> LimitedReader_Read rd l p = ((0, Some EOF), p, l)) \<and>
     (0 < lrN l \<and>
      rd (lrR l) (take (nat (min (lrN l) (int (length p)))) p) = ((n, err), q, r1) \<longrightarrow>
        LimitedReader_Read rd l p =
          ((n, err),
           store q (take (nat (min (lrN l) (int (length p)))) p) @
             drop (nat (min (lrN l) (int (length p)))) p,
           \<lparr>lrR = r1, lrN = wrap64 (lrN l - n)\<rparr>)) \<and>
     (nonNegative rd \<longrightarrow>
        lrN (snd (snd (LimitedReader_Read rd l p))) =
          (if lrN l \<le> 0 then lrN l else lrN l - fst (fst (LimitedReader_Read rd l p))) \<and>
        lrN (snd (snd (LimitedReader_Read rd l p))) \<le> lrN l \<and>
        lrN (snd (readCalls (LimitedReader_Read rd) l ps)) \<le> lrN l) \<and>
     (withinRequest rd \<longrightarrow>
        sum_list (fst (readCalls (LimitedReader_Read rd) l ps)) \<le> max 0 (lrN l))"
proof (intro conjI impI)
  assume "lrN l \<le> 0"
  then show "LimitedReader_Read rd l p = ((0, Some EOF), p, l)"
    by (rule LimitedReader_Read_exhausted)
next
  assume "0 < lrN l \<and>
      rd (lrR l) (take (nat (min (lrN l) (int (length p)))) p) = ((n, err), q, r1)"
  then show "LimitedReader_Read rd l p =
          ((n, err),
           store q (take (nat (min (lrN l) (int (length p)))) p) @
             drop (nat (min (lrN l) (int (length p)))) p,
           \<lparr>lrR = r1, lrN = wrap64 (lrN l - n)\<rparr>)"
    using LimitedReader_Read_delegates [of l rd p n err q r1] by blast
next
  assume nn: "nonNegative rd"
  from LimitedReader_Read_mono [OF nn assms, of p]
  show "lrN (snd (snd (LimitedReader_Read rd l p))) =
      (if lrN l \<le> 0 then lrN l else lrN l - fst (fst (LimitedReader_Read rd l p)))"
    by (rule conjunct1)
  from LimitedReader_Read_mono [OF nn assms, of p]
  show "lrN (snd (snd (LimitedReader_Read rd l p))) \<le> lrN l"
    by (rule conjunct2)
  show "lrN (snd (readCalls (LimitedReader_Read rd) l ps)) \<le> lrN l"
    using nn assms by (rule readCalls_LimitedReader_mono)
next
  assume "withinRequest rd"
  then show "sum_list (fst (readCalls (LimitedReader_Read rd) l ps)) \<le> max 0 (lrN l)"
    using assms by (rule readCalls_LimitedReader_total)
qed

theorem LimitedReader_Read_limits_witness:
  "LimitedReader_Read bytesRead (LimitReader [1, 2, 3, 4, 5] 0) [0, 0] =
      ((0, Some EOF), [0, 0], LimitReader [1, 2, 3, 4, 5] 0) \<and>
   LimitedReader_Read bytesRead (LimitReader [1, 2, 3, 4, 5] 3) [0, 0, 0, 0] =
      ((3, None), [1, 2, 3, 0], \<lparr>lrR = [4, 5], lrN = 0\<rparr>) \<and>
   lrN (snd (readCalls (LimitedReader_Read overRead) (LimitReader () 3) [[0, 0], [0, 0]])) \<le> 3 \<and>
   sum_list (fst (readCalls (LimitedReader_Read bytesRead) (LimitReader [1, 2, 3, 4, 5] 3)
      [[0, 0], [0, 0], [0, 0]])) \<le> 3"
  using
    LimitedReader_Read_limits [of "LimitReader [1, 2, 3, 4, 5] 0" bytesRead "[0, 0]"]
    LimitedReader_Read_limits [of "LimitReader [1, 2, 3, 4, 5] 3" bytesRead "[0, 0, 0, 0]"
      3 None "[1, 2, 3]" "[4, 5]" "[[0, 0], [0, 0], [0, 0]]"]
    LimitedReader_Read_limits [of "LimitReader () 3" overRead "[0, 0]" _ _ _ _
      "[[0, 0], [0, 0]]"]
    withinRequest_bytesRead nonNegative_overRead
  by (simp add: LimitReader_def in64_def bytesRead_def wrap64_def store_def)

text \<open>
  The claim as it was stated fails over a reader that returns a count that is not
  negative but exceeds the slice it was given: with \<open>N = 3\<close> one \<^verbatim>\<open>Read\<close> yields 10.
\<close>

theorem LimitedReader_over_count_counterexample:
  "nonNegative overRead \<and>
   sum_list (fst (readCalls (LimitedReader_Read overRead) (LimitReader () 3)
      [[0, 0, 0, 0, 0]])) = 10 \<and>
   \<not> sum_list (fst (readCalls (LimitedReader_Read overRead) (LimitReader () 3)
      [[0, 0, 0, 0, 0]])) \<le> lrN (LimitReader () 3)"
  by (simp add: nonNegative_overRead LimitedReader_Read_def LimitReader_def overRead_def
      wrap64_def)

text \<open>
  C6. For every section reader, \<^verbatim>\<open>ReadAt(buf, off)\<close> with a local offset \<open>off\<close> outside
  \<open>[0, limit - base)\<close> reports \<open>EOF\<close> with 0 bytes and does not touch the store. A
  request that starts inside the window and is longer than what is left of it is clamped
  to \<open>limit - (base + off)\<close> bytes, read at the absolute offset \<open>base + off\<close>, and a
  \<^verbatim>\<open>nil\<close> status of the underlying \<^verbatim>\<open>ReadAt\<close> is replaced by \<open>EOF\<close>, any other status
  being kept. A request that fits the window is delegated unchanged. The differences and
  the sum are those of 64-bit arithmetic, and they are exact when nothing overflows.
\<close>

theorem SectionReader_ReadAt_window:
  "(off < 0 \<or> wrap64 (srLimit s - srBase s) \<le> off \<longrightarrow>
      SectionReader_ReadAt ra s p off = Return ((0, Some EOF), p, srR s)) \<and>
   (0 \<le> off \<and> off < wrap64 (srLimit s - srBase s) \<and>
    wrap64 (srLimit s - srBase s) - off < int (length p) \<and>
    ra (srR s) (take (nat (wrap64 (srLimit s - srBase s) - off)) p) (wrap64 (off + srBase s)) =
      ((n, err), q, r1) \<longrightarrow>
      SectionReader_ReadAt ra s p off =
        Return ((n, if err = None then Some EOF else err),
          store q (take (nat (wrap64 (srLimit s - srBase s) - off)) p) @
            drop (nat (wrap64 (srLimit s - srBase s) - off)) p, r1)) \<and>
   (0 \<le> off \<and> off < wrap64 (srLimit s - srBase s) \<and>
    int (length p) \<le> wrap64 (srLimit s - srBase s) - off \<and>
    ra (srR s) p (wrap64 (off + srBase s)) = ((n, err), q, r1) \<longrightarrow>
      SectionReader_ReadAt ra s p off = Return ((n, err), store q p, r1)) \<and>
   (in64 (srBase s + off) \<and> in64 (srLimit s - (srBase s + off)) \<and>
    in64 (srLimit s - srBase s) \<longrightarrow>
      wrap64 (srLimit s - srBase s) - off = srLimit s - (srBase s + off) \<and>
      wrap64 (off + srBase s) = srBase s + off)"
proof (intro conjI impI)
  assume "off < 0 \<or> wrap64 (srLimit s - srBase s) \<le> off"
  then show "SectionReader_ReadAt ra s p off = Return ((0, Some EOF), p, srR s)"
    by (rule SectionReader_ReadAt_outside)
next
  assume "0 \<le> off \<and> off < wrap64 (srLimit s - srBase s) \<and>
    wrap64 (srLimit s - srBase s) - off < int (length p) \<and>
    ra (srR s) (take (nat (wrap64 (srLimit s - srBase s) - off)) p) (wrap64 (off + srBase s)) =
      ((n, err), q, r1)"
  then show "SectionReader_ReadAt ra s p off =
        Return ((n, if err = None then Some EOF else err),
          store q (take (nat (wrap64 (srLimit s - srBase s) - off)) p) @
            drop (nat (wrap64 (srLimit s - srBase s) - off)) p, r1)"
    using SectionReader_ReadAt_clamped [of off s p ra n err q r1] by simp
next
  assume "0 \<le> off \<and> off < wrap64 (srLimit s - srBase s) \<and>
    int (length p) \<le> wrap64 (srLimit s - srBase s) - off \<and>
    ra (srR s) p (wrap64 (off + srBase s)) = ((n, err), q, r1)"
  then show "SectionReader_ReadAt ra s p off = Return ((n, err), store q p, r1)"
    using SectionReader_ReadAt_inside [of off s p ra n err q r1] by simp
next
  assume a: "in64 (srBase s + off) \<and> in64 (srLimit s - (srBase s + off)) \<and>
    in64 (srLimit s - srBase s)"
  then show "wrap64 (srLimit s - srBase s) - off = srLimit s - (srBase s + off)"
    by (simp add: wrap64_id)
  from a show "wrap64 (off + srBase s) = srBase s + off"
    by (simp add: wrap64_id add.commute)
qed

theorem SectionReader_ReadAt_window_witness:
  "SectionReader_ReadAt storeReadAt (NewSectionReader [10, 11, 12, 13, 14, 15, 16] 2 3)
      [0, 0, 0, 0] (- 1) =
      Return ((0, Some EOF), [0, 0, 0, 0], [10, 11, 12, 13, 14, 15, 16]) \<and>
   SectionReader_ReadAt storeReadAt (NewSectionReader [10, 11, 12, 13, 14, 15, 16] 2 3)
      [0, 0, 0, 0] 3 =
      Return ((0, Some EOF), [0, 0, 0, 0], [10, 11, 12, 13, 14, 15, 16]) \<and>
   SectionReader_ReadAt storeReadAt (NewSectionReader [10, 11, 12, 13, 14, 15, 16] 2 3)
      [0, 0, 0, 0] 1 =
      Return ((2, Some EOF), [13, 14, 0, 0], [10, 11, 12, 13, 14, 15, 16]) \<and>
   SectionReader_ReadAt storeReadAt (NewSectionReader [10, 11, 12, 13, 14, 15, 16] 2 3)
      [0, 0] 0 =
      Return ((2, None), [12, 13], [10, 11, 12, 13, 14, 15, 16])"
  using
    SectionReader_ReadAt_window
      [of "- 1" "NewSectionReader [10, 11, 12, 13, 14, 15, 16] 2 3" storeReadAt "[0, 0, 0, 0]"]
    SectionReader_ReadAt_window
      [of 3 "NewSectionReader [10, 11, 12, 13, 14, 15, 16] 2 3" storeReadAt "[0, 0, 0, 0]"]
    SectionReader_ReadAt_window
      [of 1 "NewSectionReader [10, 11, 12, 13, 14, 15, 16] 2 3" storeReadAt "[0, 0, 0, 0]"
        2 None "[13, 14]" "[10, 11, 12, 13, 14, 15, 16]"]
    SectionReader_ReadAt_window
      [of 0 "NewSectionReader [10, 11, 12, 13, 14, 15, 16] 2 3" storeReadAt "[0, 0]"
        2 None "[12, 13]" "[10, 11, 12, 13, 14, 15, 16]"]
  by (simp add: NewSectionReader_def maxint64_def wrap64_def storeReadAt_def store_def Let_def
      in64_def)

text \<open>
  C7. For every section reader, \<^verbatim>\<open>Seek\<close> accepts the origins start, current and end
  and rejects any other with \<open>errWhence\<close>; it adds the offset to \<open>base\<close>, to the current
  offset or to \<open>limit\<close>, rejects a result before \<open>base\<close> with \<open>errOffset\<close> and leaves the
  reader as it was, and otherwise makes the result the current offset, whatever \<open>limit\<close>
  is, and returns it relative to \<open>base\<close>. The sum and the difference are those of 64-bit
  arithmetic; they are exact when the sum is representable and \<open>base\<close> is not negative.
  A sequential read at a current offset that has reached \<open>limit\<close> reports \<open>EOF\<close> and
  does not touch the store. For a section of base 10 and length 5, over any store: after
  a read, \<^verbatim>\<open>Seek(0, SeekEnd)\<close> returns 5 and the next read reports \<open>EOF\<close>.
\<close>

theorem SectionReader_Seek_resolves:
  "(whence = SeekStart \<or> whence = SeekCurrent \<or> whence = SeekEnd \<longrightarrow>
      SectionReader_Seek s offset whence =
        (if wrap64 (offset + seekOrigin s whence) < srBase s then ((0, Some errOffset), s)
         else ((wrap64 (wrap64 (offset + seekOrigin s whence) - srBase s), None),
               s\<lparr>srOff := wrap64 (offset + seekOrigin s whence)\<rparr>))) \<and>
   ((whence = SeekStart \<or> whence = SeekCurrent \<or> whence = SeekEnd) \<and>
    in64 (offset + seekOrigin s whence) \<and> 0 \<le> srBase s \<and>
    srBase s \<le> offset + seekOrigin s whence \<longrightarrow>
      SectionReader_Seek s offset whence =
        ((offset + seekOrigin s whence - srBase s, None),
         s\<lparr>srOff := offset + seekOrigin s whence\<rparr>)) \<and>
   (whence \<noteq> SeekStart \<and> whence \<noteq> SeekCurrent \<and> whence \<noteq> SeekEnd \<longrightarrow>
      SectionReader_Seek s offset whence = ((0, Some errWhence), s)) \<and>
   (srLimit s \<le> srOff s \<longrightarrow> SectionReader_Read ra s p = Return ((0, Some EOF), p, s)) \<and>
   ((whence = SeekStart \<or> whence = SeekCurrent \<or> whence = SeekEnd) \<and>
    srBase s \<le> wrap64 (offset + seekOrigin s whence) \<and>
    srLimit s \<le> wrap64 (offset + seekOrigin s whence) \<longrightarrow>
      SectionReader_Read ra (snd (SectionReader_Seek s offset whence)) p =
        Return ((0, Some EOF), p, s\<lparr>srOff := wrap64 (offset + seekOrigin s whence)\<rparr>)) \<and>
   (\<exists>res p1 r1 off1.
      SectionReader_Read ra (NewSectionReader r 10 5) p =
        Return (res, p1, \<lparr>srR = r1, srBase = 10, srOff = off1, srLimit = 15\<rparr>) \<and>
      SectionReader_Seek \<lparr>srR = r1, srBase = 10, srOff = off1, srLimit = 15\<rparr> 0 SeekEnd =
        ((5, None), \<lparr>srR = r1, srBase = 10, srOff = 15, srLimit = 15\<rparr>) \<and>
      SectionReader_Read ra \<lparr>srR = r1, srBase = 10, srOff = 15, srLimit = 15\<rparr> p =
        Return ((0, Some EOF), p, \<lparr>srR = r1, srBase = 10, srOff = 15, srLimit = 15\<rparr>))"
proof (intro conjI impI)
  assume "whence = SeekStart \<or> whence = SeekCurrent \<or> whence = SeekEnd"
  then show "SectionReader_Seek s offset whence =
        (if wrap64 (offset + seekOrigin s whence) < srBase s then ((0, Some errOffset), s)
         else ((wrap64 (wrap64 (offset + seekOrigin s whence) - srBase s), None),
               s\<lparr>srOff := wrap64 (offset + seekOrigin s whence)\<rparr>))"
    by (rule SectionReader_Seek_valid)
next
  assume "(whence = SeekStart \<or> whence = SeekCurrent \<or> whence = SeekEnd) \<and>
    in64 (offset + seekOrigin s whence) \<and> 0 \<le> srBase s \<and>
    srBase s \<le> offset + seekOrigin s whence"
  then show "SectionReader_Seek s offset whence =
        ((offset + seekOrigin s whence - srBase s, None),
         s\<lparr>srOff := offset + seekOrigin s whence\<rparr>)"
    using SectionReader_Seek_exact [of whence offset s] by blast
next
  assume "whence \<noteq> SeekStart \<and> whence \<noteq> SeekCurrent \<and> whence \<noteq> SeekEnd"
  then show "SectionReader_Seek s offset whence = ((0, Some errWhence), s)"
    by (rule SectionReader_Seek_whence)
next
  assume "srLimit s \<le> srOff s"
  then show "SectionReader_Read ra s p = Return ((0, Some EOF), p, s)"
    by (rule SectionReader_Read_at_end)
next
  assume a: "(whence = SeekStart \<or> whence = SeekCurrent \<or> whence = SeekEnd) \<and>
    srBase s \<le> wrap64 (offset + seekOrigin s whence) \<and>
    srLimit s \<le> wrap64 (offset + seekOrigin s whence)"
  then have "snd (SectionReader_Seek s offset whence) =
      s\<lparr>srOff := wrap64 (offset + seekOrigin s whence)\<rparr>"
    using SectionReader_Seek_valid [of whence s offset] by auto
  then show "SectionReader_Read ra (snd (SectionReader_Seek s offset whence)) p =
      Return ((0, Some EOF), p, s\<lparr>srOff := wrap64 (offset + seekOrigin s whence)\<rparr>)"
    using a by (simp add: SectionReader_Read_at_end)
next
  from SectionReader_Read_10_5 [of ra r p]
  obtain res p1 r1 off1 where
    "SectionReader_Read ra (NewSectionReader r 10 5) p =
        Return (res, p1, \<lparr>srR = r1, srBase = 10, srOff = off1, srLimit = 15\<rparr>)"
    by blast
  then show "\<exists>res p1 r1 off1.
      SectionReader_Read ra (NewSectionReader r 10 5) p =
        Return (res, p1, \<lparr>srR = r1, srBase = 10, srOff = off1, srLimit = 15\<rparr>) \<and>
      SectionReader_Seek \<lparr>srR = r1, srBase = 10, srOff = off1, srLimit = 15\<rparr> 0 SeekEnd =
        ((5, None), \<lparr>srR = r1, srBase = 10, srOff = 15, srLimit = 15\<rparr>) \<and>
      SectionReader_Read ra \<lparr>srR = r1, srBase = 10, srOff = 15, srLimit = 15\<rparr> p =
        Return ((0, Some EOF), p, \<lparr>srR = r1, srBase = 10, srOff = 15, srLimit = 15\<rparr>)"
    using SectionReader_Seek_end_10_5 [of r1 off1]
      SectionReader_Read_at_end [of "\<lparr>srR = r1, srBase = 10, srOff = 15, srLimit = 15\<rparr>" ra p]
    by auto
qed

theorem SectionReader_Seek_resolves_witness:
  "SectionReader_Read storeReadAt (NewSectionReader (replicate 100 7) 10 5) [0, 0, 0] =
      Return ((3, None), [7, 7, 7],
        \<lparr>srR = replicate 100 7, srBase = 10, srOff = 13, srLimit = 15\<rparr>) \<and>
   SectionReader_Seek \<lparr>srR = replicate 100 (7 :: byte), srBase = 10, srOff = 13, srLimit = 15\<rparr>
      0 SeekEnd =
      ((5, None), \<lparr>srR = replicate 100 7, srBase = 10, srOff = 15, srLimit = 15\<rparr>) \<and>
   SectionReader_Read storeReadAt
      \<lparr>srR = replicate 100 7, srBase = 10, srOff = 15, srLimit = 15\<rparr> [0, 0, 0] =
      Return ((0, Some EOF), [0, 0, 0],
        \<lparr>srR = replicate 100 7, srBase = 10, srOff = 15, srLimit = 15\<rparr>) \<and>
   SectionReader_Seek \<lparr>srR = replicate 100 (7 :: byte), srBase = 10, srOff = 13, srLimit = 15\<rparr>
      (- 1) SeekStart =
      ((0, Some errOffset),
        \<lparr>srR = replicate 100 7, srBase = 10, srOff = 13, srLimit = 15\<rparr>) \<and>
   SectionReader_Seek \<lparr>srR = replicate 100 (7 :: byte), srBase = 10, srOff = 13, srLimit = 15\<rparr>
      100 SeekCurrent =
      ((103, None), \<lparr>srR = replicate 100 7, srBase = 10, srOff = 113, srLimit = 15\<rparr>) \<and>
   SectionReader_Read storeReadAt
      (snd (SectionReader_Seek
        \<lparr>srR = replicate 100 (7 :: byte), srBase = 10, srOff = 13, srLimit = 15\<rparr>
        100 SeekCurrent)) [0, 0, 0] =
      Return ((0, Some EOF), [0, 0, 0],
        \<lparr>srR = replicate 100 7, srBase = 10, srOff = 113, srLimit = 15\<rparr>) \<and>
   SectionReader_Seek \<lparr>srR = replicate 100 (7 :: byte), srBase = 10, srOff = 13, srLimit = 15\<rparr>
      0 3 =
      ((0, Some errWhence),
        \<lparr>srR = replicate 100 7, srBase = 10, srOff = 13, srLimit = 15\<rparr>)"
  using
    SectionReader_Seek_resolves
      [of SeekEnd "\<lparr>srR = replicate 100 (7 :: byte), srBase = 10, srOff = 13, srLimit = 15\<rparr>" 0]
    SectionReader_Seek_resolves
      [of SeekStart "\<lparr>srR = replicate 100 (7 :: byte), srBase = 10, srOff = 13, srLimit = 15\<rparr>"
        "- 1"]
    SectionReader_Seek_resolves
      [of SeekCurrent "\<lparr>srR = replicate 100 (7 :: byte), srBase = 10, srOff = 13, srLimit = 15\<rparr>"
        100 storeReadAt "[0, 0, 0]"]
    SectionReader_Seek_resolves
      [of 3 "\<lparr>srR = replicate 100 (7 :: byte), srBase = 10, srOff = 15, srLimit = 15\<rparr>" 0
        storeReadAt "[0, 0, 0]"]
  by (simp add: seekOrigin_def SeekStart_def SeekCurrent_def SeekEnd_def in64_def wrap64_def
      SectionReader_Read_def NewSectionReader_def maxint64_def storeReadAt_def store_def
      SectionReader_Seek_def Let_def)

text \<open>
  C8. The constructor is meant to store \<open>off + n\<close> as the limit when the sum is
  representable and the greatest offset otherwise. For the offset 0 and the length \<open>-1\<close>
  the sum \<open>-1\<close> is representable, and the limit stored is \<open>2^63 - 1\<close>.
\<close>

theorem NewSectionReader_negative_length:
  "srLimit (NewSectionReader r 0 (- 1)) = 2 ^ 63 - 1 \<and> in64 (0 + (- 1))"
  by (simp add: NewSectionReader_def in64_def wrap64_def maxint64_def Let_def)

text \<open>
  C9. For every tee reader over a source and a sink, \<^verbatim>\<open>Read\<close> delegates to the source;
  when the source returned no byte the sink is not written to; when it returned \<open>n > 0\<close>
  bytes, exactly those bytes are written to the sink before the call returns; the call
  returns the source's count and status when the write reports no failure, and the
  write's count and failure otherwise. A sink that accepts everything has then received
  exactly the bytes read.
\<close>

theorem teeReader_Read_mirrors:
  assumes "rd (teeR t) p = ((n, err), q, r1)"
  shows
    "(n \<le> 0 \<longrightarrow>
        teeReader_Read rd wr t p =
          Return ((n, err), store q p, \<lparr>teeR = r1, teeW = teeW t\<rparr>)) \<and>
     (0 < n \<and> nat n \<le> length p \<and>
      wr (teeW t) (take (nat n) (store q p)) = ((nw, ew), w1) \<longrightarrow>
        teeReader_Read rd wr t p =
          Return ((if ew = None then (n, err) else (nw, ew)), store q p,
            \<lparr>teeR = r1, teeW = w1\<rparr>)) \<and>
     (0 < n \<and> nat n \<le> length p \<and> acceptsAll wr recv \<longrightarrow>
        (\<exists>w2. teeReader_Read rd wr t p =
            Return ((n, err), store q p, \<lparr>teeR = r1, teeW = w2\<rparr>) \<and>
          recv w2 = recv (teeW t) @ take (nat n) (store q p)))"
proof (intro conjI impI)
  assume "n \<le> 0"
  with assms show "teeReader_Read rd wr t p =
      Return ((n, err), store q p, \<lparr>teeR = r1, teeW = teeW t\<rparr>)"
    by (rule teeReader_Read_idle)
next
  assume "0 < n \<and> nat n \<le> length p \<and>
      wr (teeW t) (take (nat n) (store q p)) = ((nw, ew), w1)"
  then show "teeReader_Read rd wr t p =
      Return ((if ew = None then (n, err) else (nw, ew)), store q p,
        \<lparr>teeR = r1, teeW = w1\<rparr>)"
    using teeReader_Read_writes [of rd t p n err q r1 wr nw ew w1] assms by blast
next
  assume a: "0 < n \<and> nat n \<le> length p \<and> acceptsAll wr recv"
  then have acc: "acceptsAll wr recv" by simp
  from acceptsAllD [OF acc, of "teeW t" "take (nat n) (store q p)"]
  obtain w2 where w: "wr (teeW t) (take (nat n) (store q p)) =
      ((int (length (take (nat n) (store q p))), None), w2)"
    and rc: "recv w2 = recv (teeW t) @ take (nat n) (store q p)"
    by blast
  have "teeReader_Read rd wr t p =
      Return ((n, err), store q p, \<lparr>teeR = r1, teeW = w2\<rparr>)"
    using teeReader_Read_writes
      [of rd t p n err q r1 wr "int (length (take (nat n) (store q p)))" None w2] assms a w
    by simp
  with rc show "\<exists>w2. teeReader_Read rd wr t p =
      Return ((n, err), store q p, \<lparr>teeR = r1, teeW = w2\<rparr>) \<and>
      recv w2 = recv (teeW t) @ take (nat n) (store q p)"
    by blast
qed

theorem teeReader_Read_mirrors_witness:
  "teeReader_Read bytesRead bufWrite (TeeReader [104, 101, 108, 108, 111] [])
      [0, 0, 0, 0, 0, 0, 0, 0] =
      Return ((5, None), [104, 101, 108, 108, 111, 0, 0, 0],
        \<lparr>teeR = [], teeW = [104, 101, 108, 108, 111]\<rparr>) \<and>
   teeReader_Read eagerRead failWrite (TeeReader [104, 101, 108, 108, 111] [])
      [0, 0, 0, 0, 0, 0, 0, 0] =
      Return ((5, Some (OtherError 1)), [104, 101, 108, 108, 111, 0, 0, 0],
        \<lparr>teeR = [], teeW = [104, 101, 108, 108, 111]\<rparr>) \<and>
   teeReader_Read bytesRead bufWrite (TeeReader [] [1]) [0, 0] =
      Return ((0, Some EOF), [0, 0], \<lparr>teeR = [], teeW = [1]\<rparr>)"
  using
    teeReader_Read_mirrors [of bytesRead "TeeReader [104, 101, 108, 108, 111] []"
      "[0, 0, 0, 0, 0, 0, 0, 0]" 5 None "[104, 101, 108, 108, 111]" "[]" bufWrite
      5 None "[104, 101, 108, 108, 111]" "\<lambda>w. w"]
    teeReader_Read_mirrors [of eagerRead "TeeReader [104, 101, 108, 108, 111] []"
      "[0, 0, 0, 0, 0, 0, 0, 0]" 5 "Some EOF" "[104, 101, 108, 108, 111]" "[]" failWrite
      5 "Some (OtherError 1)" "[104, 101, 108, 108, 111]"]
    teeReader_Read_mirrors [of bytesRead "TeeReader [] [1]" "[0, 0]" 0 "Some EOF" "[]" "[]"
      bufWrite]
    acceptsAll_bufWrite
  by (simp add: TeeReader_def bytesRead_def eagerRead_def bufWrite_def failWrite_def store_def)

end
